theory Spec2Isabelle
  imports Main "HOL-Library.Word" "HOL-Library.Monad_Syntax"
begin

section \<open>The ordered map of \<open>ordered_map.c\<close>: data model\<close>

text \<open>
  The map is a red-black tree of heap-allocated nodes linked by \<open>parent\<close>, \<open>left\<close> and
  \<open>right\<close> pointers; the sentinel \<open>NIL\<close> is the null pointer. The embedding keeps that
  shape: a node pointer is an \<open>addr option\<close> (\<open>None\<close> is \<open>NULL\<close>), the node memory is a
  partial map from addresses to node records, and every function of the source is a
  function on that memory. A result \<open>None\<close> of a function in the option monad means that
  the C function does not return normally: it dereferences a null or dangling node
  pointer, calls a null function pointer, or loops forever.

  Keys and values are opaque to the map (\<open>void*\<close>). A key or value pointer is an
  \<open>'k option\<close> / \<open>'v option\<close>: \<open>None\<close> is \<open>NULL\<close>, and \<open>Some x\<close> is a pointer whose referent
  is the object \<open>x\<close>. The block a node owns in inline mode (\<open>key_size > 0\<close>, filled by
  \<open>memcpy\<close>) is identified with the object copied into it. Calls of the caller's
  destructor callbacks and of \<open>free\<close> on key and value blocks are recorded, in order, in
  the \<open>trace\<close> of the memory. A destructor call is recorded, not interpreted: what a
  destructor does to its argument is the caller's code, so a value can still be read
  here after it was passed to the destructor. A trace that passes one stored value to
  the destructor twice, or a binding that holds a value so passed, is a double release
  or a dangling binding of the code under a destructor that frees.
  \<open>malloc\<close> succeeds while the budget \<open>avail\<close> is positive.
  The \<open>clock()\<close> readings and the floating-point running averages of the statistics
  block are left out; its integer counters are kept.
\<close>

datatype rb_color_t = RB_RED | RB_BLACK

type_synonym addr = nat

record ('k, 'v) rb_node_t =
  key :: 'k
  val :: 'v
  parent :: "addr option"
  left :: "addr option"
  right :: "addr option"
  color :: rb_color_t

record ('k, 'v) ordered_map_config_t =
  key_compare :: "('k \<Rightarrow> 'k \<Rightarrow> int) option"
  key_destructor :: bool
  value_destructor :: bool
  key_copy :: "('k \<Rightarrow> 'k option) option"
  value_copy :: "('v \<Rightarrow> 'v option) option"
  key_size :: nat
  value_size :: nat

record ordered_map_stats_t =
  insert_count :: "64 word"
  delete_count :: "64 word"
  search_count :: "64 word"
  total_operations :: "64 word"
  max_height :: "64 word"
  current_height :: "64 word"

datatype ('k, 'v) event =
    Free_key 'k
  | Free_value 'v
  | Key_destructor 'k
  | Value_destructor 'v

text \<open>
  \<open>struct ordered_map\<close> (fields \<open>root\<close>, \<open>config\<close>, \<open>size\<close>, \<open>stats\<close>, \<open>stats_enabled\<close>; the
  field \<open>size\<close> is called \<open>msize\<close> here), together with the memory the map lives in.
\<close>

record ('k, 'v) ordered_map_t =
  root :: "addr option"
  config :: "('k, 'v) ordered_map_config_t"
  msize :: "64 word"
  stats :: ordered_map_stats_t
  stats_enabled :: bool
  nodes :: "addr \<Rightarrow> ('k, 'v) rb_node_t option"
  next_addr :: addr
  avail :: nat
  trace :: "('k, 'v) event list"

datatype ordered_map_error_t =
    ORDERED_MAP_SUCCESS
  | ORDERED_MAP_ERROR_NULL_POINTER
  | ORDERED_MAP_ERROR_INVALID_CONFIG
  | ORDERED_MAP_ERROR_OUT_OF_MEMORY
  | ORDERED_MAP_ERROR_KEY_NOT_FOUND
  | ORDERED_MAP_ERROR_ITERATOR_INVALID
  | ORDERED_MAP_ERROR_ITERATOR_END

datatype ordered_map_iter_direction_t = ORDERED_MAP_ITER_FORWARD | ORDERED_MAP_ITER_BACKWARD

record ordered_map_iterator_t =
  current :: "addr option"
  direction :: ordered_map_iter_direction_t
  valid :: bool

subsection \<open>Reading and writing node fields\<close>

text \<open>\<open>fetch m p f\<close> is the read \<open>p->f\<close>; \<open>store p g m\<close> is a write to a field of \<open>*p\<close>.\<close>

definition fetch :: "('k, 'v) ordered_map_t \<Rightarrow> addr option \<Rightarrow> (('k, 'v) rb_node_t \<Rightarrow> 'a) \<Rightarrow> 'a option" where
  "fetch m p f = (case p of None \<Rightarrow> None | Some a \<Rightarrow> map_option f (nodes m a))"

definition store :: "addr option \<Rightarrow> (('k, 'v) rb_node_t \<Rightarrow> ('k, 'v) rb_node_t) \<Rightarrow>
    ('k, 'v) ordered_map_t \<Rightarrow> ('k, 'v) ordered_map_t option" where
  "store p g m = (case p of None \<Rightarrow> None
     | Some a \<Rightarrow> (case nodes m a of None \<Rightarrow> None
         | Some n \<Rightarrow> Some (m\<lparr>nodes := (nodes m)(a \<mapsto> g n)\<rparr>)))"

definition set_parent :: "addr option \<Rightarrow> addr option \<Rightarrow> ('k, 'v) ordered_map_t \<Rightarrow> ('k, 'v) ordered_map_t option" where
  "set_parent p q m = store p (\<lambda>n. n\<lparr>parent := q\<rparr>) m"

definition set_left :: "addr option \<Rightarrow> addr option \<Rightarrow> ('k, 'v) ordered_map_t \<Rightarrow> ('k, 'v) ordered_map_t option" where
  "set_left p q m = store p (\<lambda>n. n\<lparr>left := q\<rparr>) m"

definition set_right :: "addr option \<Rightarrow> addr option \<Rightarrow> ('k, 'v) ordered_map_t \<Rightarrow> ('k, 'v) ordered_map_t option" where
  "set_right p q m = store p (\<lambda>n. n\<lparr>right := q\<rparr>) m"

definition set_val :: "addr option \<Rightarrow> 'v \<Rightarrow> ('k, 'v) ordered_map_t \<Rightarrow> ('k, 'v) ordered_map_t option" where
  "set_val p v m = store p (\<lambda>n. n\<lparr>val := v\<rparr>) m"

definition get_color :: "('k, 'v) ordered_map_t \<Rightarrow> addr option \<Rightarrow> rb_color_t option" where
  "get_color m p = (if p = None then Some RB_BLACK else fetch m p color)"

definition set_color :: "addr option \<Rightarrow> rb_color_t \<Rightarrow> ('k, 'v) ordered_map_t \<Rightarrow> ('k, 'v) ordered_map_t option" where
  "set_color p c m = (if p \<noteq> None then store p (\<lambda>n. n\<lparr>color := c\<rparr>) m else Some m)"

definition log_event :: "('k, 'v) event \<Rightarrow> ('k, 'v) ordered_map_t \<Rightarrow> ('k, 'v) ordered_map_t" where
  "log_event e m = m\<lparr>trace := trace m @ [e]\<rparr>"

subsection \<open>Node creation and destruction\<close>

definition create_node :: "'k \<Rightarrow> 'v \<Rightarrow> ('k, 'v) ordered_map_config_t \<Rightarrow> ('k, 'v) ordered_map_t \<Rightarrow>
    addr option \<times> ('k, 'v) ordered_map_t" where
  "create_node k v cfg m0 =
    (if avail m0 = 0 then (None, m0)
     else
       let a = next_addr m0;
           m1 = m0\<lparr>next_addr := Suc a, avail := avail m0 - 1\<rparr>;
           kres =
             (if key_size cfg > 0
              then (if avail m1 = 0 then None else Some (k, m1\<lparr>avail := avail m1 - 1\<rparr>))
              else (case key_copy cfg of
                      Some cp \<Rightarrow> map_option (\<lambda>k'. (k', m1)) (cp k)
                    | None \<Rightarrow> Some (k, m1)))
       in (case kres of
            None \<Rightarrow> (None, m1)
          | Some (nk, m2) \<Rightarrow>
              let release_key = (\<lambda>m. if key_size cfg > 0 then log_event (Free_key nk) m
                                      else if key_destructor cfg then log_event (Key_destructor nk) m
                                      else m);
                  vres =
                    (if value_size cfg > 0
                     then (if avail m2 = 0 then None else Some (v, m2\<lparr>avail := avail m2 - 1\<rparr>))
                     else (case value_copy cfg of
                             Some cp \<Rightarrow> map_option (\<lambda>v'. (v', m2)) (cp v)
                           | None \<Rightarrow> Some (v, m2)))
              in (case vres of
                   None \<Rightarrow> (None, release_key m2)
                 | Some (nv, m3) \<Rightarrow>
                     (Some a, m3\<lparr>nodes := (nodes m3)(a \<mapsto>
                        \<lparr>key = nk, val = nv, parent = None, left = None, right = None,
                         color = RB_RED\<rparr>)\<rparr>))))"

definition destroy_node :: "addr option \<Rightarrow> ('k, 'v) ordered_map_config_t \<Rightarrow> ('k, 'v) ordered_map_t \<Rightarrow>
    ('k, 'v) ordered_map_t option" where
  "destroy_node p cfg m =
    (case p of None \<Rightarrow> Some m
     | Some a \<Rightarrow> do {
         n \<leftarrow> nodes m a;
         let m = (if key_size cfg > 0 then log_event (Free_key (key n)) m
                  else if key_destructor cfg then log_event (Key_destructor (key n)) m
                  else m);
         let m = (if value_size cfg > 0 then log_event (Free_value (val n)) m
                  else if value_destructor cfg then log_event (Value_destructor (val n)) m
                  else m);
         Some (m\<lparr>nodes := (nodes m)(a := None)\<rparr>)
       })"

subsection \<open>Rotations\<close>

definition left_rotate :: "('k, 'v) ordered_map_t \<Rightarrow> addr option \<Rightarrow> ('k, 'v) ordered_map_t option" where
  "left_rotate m x = do {
     y \<leftarrow> fetch m x right;
     yl \<leftarrow> fetch m y left;
     m \<leftarrow> set_right x yl m;
     yl \<leftarrow> fetch m y left;
     m \<leftarrow> (if yl \<noteq> None then set_parent yl x m else Some m);
     xp \<leftarrow> fetch m x parent;
     m \<leftarrow> set_parent y xp m;
     xp \<leftarrow> fetch m x parent;
     m \<leftarrow> (if xp = None then Some (m\<lparr>root := y\<rparr>)
           else do {
             xpl \<leftarrow> fetch m xp left;
             if x = xpl then set_left xp y m else set_right xp y m
           });
     m \<leftarrow> set_left y x m;
     set_parent x y m
   }"

definition right_rotate :: "('k, 'v) ordered_map_t \<Rightarrow> addr option \<Rightarrow> ('k, 'v) ordered_map_t option" where
  "right_rotate m y = do {
     x \<leftarrow> fetch m y left;
     xr \<leftarrow> fetch m x right;
     m \<leftarrow> set_left y xr m;
     xr \<leftarrow> fetch m x right;
     m \<leftarrow> (if xr \<noteq> None then set_parent xr y m else Some m);
     yp \<leftarrow> fetch m y parent;
     m \<leftarrow> set_parent x yp m;
     yp \<leftarrow> fetch m y parent;
     m \<leftarrow> (if yp = None then Some (m\<lparr>root := x\<rparr>)
           else do {
             ypr \<leftarrow> fetch m yp right;
             if y = ypr then set_right yp x m else set_left yp x m
           });
     m \<leftarrow> set_right x y m;
     set_parent y x m
   }"

subsection \<open>Rebalancing after insertion\<close>

text \<open>The \<open>while\<close> loop of \<open>insert_fixup\<close>; the function returns the map at loop exit.\<close>

partial_function (option) insert_fixup_loop ::
    "('k, 'v) ordered_map_t \<Rightarrow> addr option \<Rightarrow> ('k, 'v) ordered_map_t option" where
  "insert_fixup_loop m z = do {
     zp \<leftarrow> fetch m z parent;
     c \<leftarrow> get_color m zp;
     if c = RB_RED then do {
       zpp \<leftarrow> fetch m zp parent;
       zppl \<leftarrow> fetch m zpp left;
       if zp = zppl then do {
         y \<leftarrow> fetch m zpp right;
         cy \<leftarrow> get_color m y;
         if cy = RB_RED then do {
           m \<leftarrow> set_color zp RB_BLACK m;
           m \<leftarrow> set_color y RB_BLACK m;
           zp \<leftarrow> fetch m z parent;
           zpp \<leftarrow> fetch m zp parent;
           m \<leftarrow> set_color zpp RB_RED m;
           zp \<leftarrow> fetch m z parent;
           zpp \<leftarrow> fetch m zp parent;
           insert_fixup_loop m zpp
         } else do {
           zpr \<leftarrow> fetch m zp right;
           (z, m) \<leftarrow> (if z = zpr then do { m' \<leftarrow> left_rotate m zp; Some (zp, m') }
                      else Some (z, m));
           zp \<leftarrow> fetch m z parent;
           m \<leftarrow> set_color zp RB_BLACK m;
           zp \<leftarrow> fetch m z parent;
           zpp \<leftarrow> fetch m zp parent;
           m \<leftarrow> set_color zpp RB_RED m;
           zp \<leftarrow> fetch m z parent;
           zpp \<leftarrow> fetch m zp parent;
           m \<leftarrow> right_rotate m zpp;
           insert_fixup_loop m z
         }
       } else do {
         y \<leftarrow> fetch m zpp left;
         cy \<leftarrow> get_color m y;
         if cy = RB_RED then do {
           m \<leftarrow> set_color zp RB_BLACK m;
           m \<leftarrow> set_color y RB_BLACK m;
           zp \<leftarrow> fetch m z parent;
           zpp \<leftarrow> fetch m zp parent;
           m \<leftarrow> set_color zpp RB_RED m;
           zp \<leftarrow> fetch m z parent;
           zpp \<leftarrow> fetch m zp parent;
           insert_fixup_loop m zpp
         } else do {
           zpl \<leftarrow> fetch m zp left;
           (z, m) \<leftarrow> (if z = zpl then do { m' \<leftarrow> right_rotate m zp; Some (zp, m') }
                      else Some (z, m));
           zp \<leftarrow> fetch m z parent;
           m \<leftarrow> set_color zp RB_BLACK m;
           zp \<leftarrow> fetch m z parent;
           zpp \<leftarrow> fetch m zp parent;
           m \<leftarrow> set_color zpp RB_RED m;
           zp \<leftarrow> fetch m z parent;
           zpp \<leftarrow> fetch m zp parent;
           m \<leftarrow> left_rotate m zpp;
           insert_fixup_loop m z
         }
       }
     } else Some m
   }"

declare insert_fixup_loop.simps [code]

definition insert_fixup :: "('k, 'v) ordered_map_t \<Rightarrow> addr option \<Rightarrow> ('k, 'v) ordered_map_t option" where
  "insert_fixup m z = do {
     m \<leftarrow> insert_fixup_loop m z;
     set_color (root m) RB_BLACK m
   }"

subsection \<open>Extremes, successor and predecessor\<close>

partial_function (option) tree_minimum :: "('k, 'v) ordered_map_t \<Rightarrow> addr option \<Rightarrow> addr option option" where
  "tree_minimum m node = do {
     l \<leftarrow> fetch m node left;
     if l \<noteq> None then tree_minimum m l else Some node
   }"

declare tree_minimum.simps [code]

partial_function (option) tree_maximum :: "('k, 'v) ordered_map_t \<Rightarrow> addr option \<Rightarrow> addr option option" where
  "tree_maximum m node = do {
     r \<leftarrow> fetch m node right;
     if r \<noteq> None then tree_maximum m r else Some node
   }"

declare tree_maximum.simps [code]

text \<open>The ascent loops of \<open>tree_successor\<close> and \<open>tree_predecessor\<close>.\<close>

partial_function (option) successor_loop ::
    "('k, 'v) ordered_map_t \<Rightarrow> addr option \<Rightarrow> addr option \<Rightarrow> addr option option" where
  "successor_loop m node y =
    (if y \<noteq> None then do {
       yr \<leftarrow> fetch m y right;
       if node = yr then do { yp \<leftarrow> fetch m y parent; successor_loop m y yp }
       else Some y
     } else Some y)"

declare successor_loop.simps [code]

partial_function (option) predecessor_loop ::
    "('k, 'v) ordered_map_t \<Rightarrow> addr option \<Rightarrow> addr option \<Rightarrow> addr option option" where
  "predecessor_loop m node y =
    (if y \<noteq> None then do {
       yl \<leftarrow> fetch m y left;
       if node = yl then do { yp \<leftarrow> fetch m y parent; predecessor_loop m y yp }
       else Some y
     } else Some y)"

declare predecessor_loop.simps [code]

definition tree_successor :: "('k, 'v) ordered_map_t \<Rightarrow> addr option \<Rightarrow> addr option option" where
  "tree_successor m node = do {
     r \<leftarrow> fetch m node right;
     if r \<noteq> None then tree_minimum m r
     else do { y \<leftarrow> fetch m node parent; successor_loop m node y }
   }"

definition tree_predecessor :: "('k, 'v) ordered_map_t \<Rightarrow> addr option \<Rightarrow> addr option option" where
  "tree_predecessor m node = do {
     l \<leftarrow> fetch m node left;
     if l \<noteq> None then tree_maximum m l
     else do { y \<leftarrow> fetch m node parent; predecessor_loop m node y }
   }"

subsection \<open>Deletion helpers\<close>

definition transplant :: "('k, 'v) ordered_map_t \<Rightarrow> addr option \<Rightarrow> addr option \<Rightarrow> ('k, 'v) ordered_map_t option" where
  "transplant m u v = do {
     up \<leftarrow> fetch m u parent;
     m \<leftarrow> (if up = None then Some (m\<lparr>root := v\<rparr>)
           else do {
             upl \<leftarrow> fetch m up left;
             if u = upl then set_left up v m else set_right up v m
           });
     if v \<noteq> None then do { up \<leftarrow> fetch m u parent; set_parent v up m } else Some m
   }"

text \<open>The \<open>while\<close> loop of \<open>delete_fixup\<close>; it returns the map and \<open>x\<close> at loop exit.\<close>

partial_function (option) delete_fixup_loop ::
    "('k, 'v) ordered_map_t \<Rightarrow> addr option \<Rightarrow> (('k, 'v) ordered_map_t \<times> addr option) option" where
  "delete_fixup_loop m x =
    (if x \<noteq> root m \<and> x \<noteq> None then do {
       cx \<leftarrow> get_color m x;
       if cx = RB_BLACK then do {
         xp \<leftarrow> fetch m x parent;
         xpl \<leftarrow> fetch m xp left;
         if x = xpl then do {
           w \<leftarrow> fetch m xp right;
           cw \<leftarrow> get_color m w;
           (m, w) \<leftarrow> (if cw = RB_RED then do {
                         m \<leftarrow> set_color w RB_BLACK m;
                         xp \<leftarrow> fetch m x parent;
                         m \<leftarrow> set_color xp RB_RED m;
                         xp \<leftarrow> fetch m x parent;
                         m \<leftarrow> left_rotate m xp;
                         xp \<leftarrow> fetch m x parent;
                         w \<leftarrow> fetch m xp right;
                         Some (m, w)
                       } else Some (m, w));
           wl \<leftarrow> fetch m w left;
           cwl \<leftarrow> get_color m wl;
           both \<leftarrow> (if cwl = RB_BLACK then do {
                       wr \<leftarrow> fetch m w right;
                       cwr \<leftarrow> get_color m wr;
                       Some (cwr = RB_BLACK)
                     } else Some False);
           if both then do {
             m \<leftarrow> set_color w RB_RED m;
             xp \<leftarrow> fetch m x parent;
             delete_fixup_loop m xp
           } else do {
             wr \<leftarrow> fetch m w right;
             cwr \<leftarrow> get_color m wr;
             (m, w) \<leftarrow> (if cwr = RB_BLACK then do {
                           wl \<leftarrow> fetch m w left;
                           m \<leftarrow> set_color wl RB_BLACK m;
                           m \<leftarrow> set_color w RB_RED m;
                           m \<leftarrow> right_rotate m w;
                           xp \<leftarrow> fetch m x parent;
                           w \<leftarrow> fetch m xp right;
                           Some (m, w)
                         } else Some (m, w));
             xp \<leftarrow> fetch m x parent;
             cxp \<leftarrow> get_color m xp;
             m \<leftarrow> set_color w cxp m;
             xp \<leftarrow> fetch m x parent;
             m \<leftarrow> set_color xp RB_BLACK m;
             wr \<leftarrow> fetch m w right;
             m \<leftarrow> set_color wr RB_BLACK m;
             xp \<leftarrow> fetch m x parent;
             m \<leftarrow> left_rotate m xp;
             delete_fixup_loop m (root m)
           }
         } else do {
           w \<leftarrow> fetch m xp left;
           cw \<leftarrow> get_color m w;
           (m, w) \<leftarrow> (if cw = RB_RED then do {
                         m \<leftarrow> set_color w RB_BLACK m;
                         xp \<leftarrow> fetch m x parent;
                         m \<leftarrow> set_color xp RB_RED m;
                         xp \<leftarrow> fetch m x parent;
                         m \<leftarrow> right_rotate m xp;
                         xp \<leftarrow> fetch m x parent;
                         w \<leftarrow> fetch m xp left;
                         Some (m, w)
                       } else Some (m, w));
           wr \<leftarrow> fetch m w right;
           cwr \<leftarrow> get_color m wr;
           both \<leftarrow> (if cwr = RB_BLACK then do {
                       wl \<leftarrow> fetch m w left;
                       cwl \<leftarrow> get_color m wl;
                       Some (cwl = RB_BLACK)
                     } else Some False);
           if both then do {
             m \<leftarrow> set_color w RB_RED m;
             xp \<leftarrow> fetch m x parent;
             delete_fixup_loop m xp
           } else do {
             wl \<leftarrow> fetch m w left;
             cwl \<leftarrow> get_color m wl;
             (m, w) \<leftarrow> (if cwl = RB_BLACK then do {
                           wr \<leftarrow> fetch m w right;
                           m \<leftarrow> set_color wr RB_BLACK m;
                           m \<leftarrow> set_color w RB_RED m;
                           m \<leftarrow> left_rotate m w;
                           xp \<leftarrow> fetch m x parent;
                           w \<leftarrow> fetch m xp left;
                           Some (m, w)
                         } else Some (m, w));
             xp \<leftarrow> fetch m x parent;
             cxp \<leftarrow> get_color m xp;
             m \<leftarrow> set_color w cxp m;
             xp \<leftarrow> fetch m x parent;
             m \<leftarrow> set_color xp RB_BLACK m;
             wl \<leftarrow> fetch m w left;
             m \<leftarrow> set_color wl RB_BLACK m;
             xp \<leftarrow> fetch m x parent;
             m \<leftarrow> right_rotate m xp;
             delete_fixup_loop m (root m)
           }
         }
       } else Some (m, x)
     } else Some (m, x))"

declare delete_fixup_loop.simps [code]

definition delete_fixup :: "('k, 'v) ordered_map_t \<Rightarrow> addr option \<Rightarrow> ('k, 'v) ordered_map_t option" where
  "delete_fixup m x = do {
     (m, x) \<leftarrow> delete_fixup_loop m x;
     if x \<noteq> None then set_color x RB_BLACK m else Some m
   }"

subsection \<open>Search, height, whole-tree destruction\<close>

partial_function (option) tree_search ::
    "('k, 'v) ordered_map_t \<Rightarrow> addr option \<Rightarrow> 'k \<Rightarrow> ('k \<Rightarrow> 'k \<Rightarrow> int) \<Rightarrow> addr option option" where
  "tree_search m cur k compare =
    (if cur \<noteq> None then do {
       ck \<leftarrow> fetch m cur key;
       let cmp = compare k ck;
       if cmp = 0 then Some cur
       else if cmp < 0 then do { l \<leftarrow> fetch m cur left; tree_search m l k compare }
       else do { r \<leftarrow> fetch m cur right; tree_search m r k compare }
     } else Some None)"

declare tree_search.simps [code]

partial_function (option) tree_height :: "('k, 'v) ordered_map_t \<Rightarrow> addr option \<Rightarrow> 64 word option" where
  "tree_height m node =
    (if node = None then Some 0
     else do {
       l \<leftarrow> fetch m node left;
       left_height \<leftarrow> tree_height m l;
       r \<leftarrow> fetch m node right;
       right_height \<leftarrow> tree_height m r;
       Some (1 + (if left_height > right_height then left_height else right_height))
     })"

declare tree_height.simps [code]

partial_function (option) destroy_tree ::
    "addr option \<Rightarrow> ('k, 'v) ordered_map_config_t \<Rightarrow> ('k, 'v) ordered_map_t \<Rightarrow> ('k, 'v) ordered_map_t option" where
  "destroy_tree p cfg m =
    (if p = None then Some m
     else do {
       l \<leftarrow> fetch m p left;
       m \<leftarrow> destroy_tree l cfg m;
       r \<leftarrow> fetch m p right;
       m \<leftarrow> destroy_tree r cfg m;
       destroy_node p cfg m
     })"

declare destroy_tree.simps [code]

section \<open>Public API\<close>

definition ordered_map_create :: "nat \<Rightarrow> ('k, 'v) ordered_map_config_t option \<Rightarrow> ('k, 'v) ordered_map_t option" where
  \<comment> \<open>The first argument is the allocation budget of the memory the map is created in;
      the result \<open>None\<close> is the \<open>NULL\<close> handle.\<close>
  "ordered_map_create budget cfgp =
    (case cfgp of None \<Rightarrow> None
     | Some cfg \<Rightarrow>
         if key_compare cfg = None then None
         else if budget = 0 then None
         else Some \<lparr>root = None, config = cfg, msize = 0,
                    stats = \<lparr>insert_count = 0, delete_count = 0, search_count = 0,
                             total_operations = 0, max_height = 0, current_height = 0\<rparr>,
                    stats_enabled = True, nodes = Map.empty, next_addr = 0,
                    avail = budget - 1, trace = []\<rparr>)"

definition count_insert :: "('k, 'v) ordered_map_t \<Rightarrow> ('k, 'v) ordered_map_t" where
  "count_insert m = m\<lparr>stats := (stats m)\<lparr>insert_count := insert_count (stats m) + 1,
                                         total_operations := total_operations (stats m) + 1\<rparr>\<rparr>"

definition count_delete :: "('k, 'v) ordered_map_t \<Rightarrow> ('k, 'v) ordered_map_t" where
  "count_delete m = m\<lparr>stats := (stats m)\<lparr>delete_count := delete_count (stats m) + 1,
                                         total_operations := total_operations (stats m) + 1\<rparr>\<rparr>"

definition count_search :: "('k, 'v) ordered_map_t \<Rightarrow> ('k, 'v) ordered_map_t" where
  "count_search m = m\<lparr>stats := (stats m)\<lparr>search_count := search_count (stats m) + 1,
                                         total_operations := total_operations (stats m) + 1\<rparr>\<rparr>"

text \<open>The descent of \<open>ordered_map_insert\<close> to the attachment point; it returns \<open>y\<close>.\<close>

partial_function (option) insert_descend ::
    "('k, 'v) ordered_map_t \<Rightarrow> ('k \<Rightarrow> 'k \<Rightarrow> int) \<Rightarrow> addr option \<Rightarrow> addr option \<Rightarrow> addr option \<Rightarrow> addr option option" where
  "insert_descend m compare new_node y x =
    (if x \<noteq> None then do {
       nk \<leftarrow> fetch m new_node key;
       xk \<leftarrow> fetch m x key;
       if compare nk xk < 0 then do { l \<leftarrow> fetch m x left; insert_descend m compare new_node x l }
       else do { r \<leftarrow> fetch m x right; insert_descend m compare new_node x r }
     } else Some y)"

declare insert_descend.simps [code]

definition ordered_map_insert :: "('k, 'v) ordered_map_t option \<Rightarrow> 'k option \<Rightarrow> 'v option \<Rightarrow>
    (ordered_map_error_t \<times> ('k, 'v) ordered_map_t option) option" where
  "ordered_map_insert mp kp vp =
    (case (mp, kp, vp) of
       (Some m, Some k, Some v) \<Rightarrow> do {
         compare \<leftarrow> key_compare (config m);
         existing \<leftarrow> tree_search m (root m) k compare;
         if existing \<noteq> None then do {
           m \<leftarrow> (if value_destructor (config m)
                 then do { ov \<leftarrow> fetch m existing val; Some (log_event (Value_destructor ov) m) }
                 else Some m);
           if value_size (config m) > 0 then do {
             m \<leftarrow> set_val existing v m;
             Some (ORDERED_MAP_SUCCESS, Some (if stats_enabled m then count_insert m else m))
           } else (case value_copy (config m) of
               Some cp \<Rightarrow>
                 (case cp v of
                    None \<Rightarrow> Some (ORDERED_MAP_ERROR_OUT_OF_MEMORY, Some m)
                  | Some new_value \<Rightarrow> do {
                      m \<leftarrow> (if value_destructor (config m)
                            then do { ov \<leftarrow> fetch m existing val;
                                      Some (log_event (Value_destructor ov) m) }
                            else Some m);
                      m \<leftarrow> set_val existing new_value m;
                      Some (ORDERED_MAP_SUCCESS, Some (if stats_enabled m then count_insert m else m))
                    })
             | None \<Rightarrow> do {
                 m \<leftarrow> set_val existing v m;
                 Some (ORDERED_MAP_SUCCESS, Some (if stats_enabled m then count_insert m else m))
               })
         } else (case create_node k v (config m) m of
             (None, m) \<Rightarrow> Some (ORDERED_MAP_ERROR_OUT_OF_MEMORY, Some m)
           | (Some a, m) \<Rightarrow> do {
               let new_node = Some a;
               y \<leftarrow> insert_descend m compare new_node None (root m);
               m \<leftarrow> set_parent new_node y m;
               m \<leftarrow> (if y = None then Some (m\<lparr>root := new_node\<rparr>)
                     else do {
                       nk \<leftarrow> fetch m new_node key;
                       yk \<leftarrow> fetch m y key;
                       if compare nk yk < 0 then set_left y new_node m else set_right y new_node m
                     });
               m \<leftarrow> insert_fixup m new_node;
               let m = m\<lparr>msize := msize m + 1\<rparr>;
               if stats_enabled m then do {
                 let m = count_insert m;
                 h \<leftarrow> tree_height m (root m);
                 let m = m\<lparr>stats := (stats m)\<lparr>current_height := h\<rparr>\<rparr>;
                 let m = (if current_height (stats m) > max_height (stats m)
                          then m\<lparr>stats := (stats m)\<lparr>max_height := current_height (stats m)\<rparr>\<rparr>
                          else m);
                 Some (ORDERED_MAP_SUCCESS, Some m)
               } else Some (ORDERED_MAP_SUCCESS, Some m)
             })
       }
     | _ \<Rightarrow> Some (ORDERED_MAP_ERROR_NULL_POINTER, mp))"

definition ordered_map_remove :: "('k, 'v) ordered_map_t option \<Rightarrow> 'k option \<Rightarrow>
    (ordered_map_error_t \<times> ('k, 'v) ordered_map_t option) option" where
  "ordered_map_remove mp kp =
    (case (mp, kp) of
       (Some m, Some k) \<Rightarrow> do {
         compare \<leftarrow> key_compare (config m);
         z \<leftarrow> tree_search m (root m) k compare;
         if z = None then Some (ORDERED_MAP_ERROR_KEY_NOT_FOUND, Some m)
         else do {
           zc \<leftarrow> fetch m z color;
           zl \<leftarrow> fetch m z left;
           (m, x, y_original_color) \<leftarrow>
             (if zl = None then do {
                x \<leftarrow> fetch m z right;
                zr \<leftarrow> fetch m z right;
                m \<leftarrow> transplant m z zr;
                Some (m, x, zc)
              } else do {
                zr \<leftarrow> fetch m z right;
                if zr = None then do {
                  x \<leftarrow> fetch m z left;
                  zl \<leftarrow> fetch m z left;
                  m \<leftarrow> transplant m z zl;
                  Some (m, x, zc)
                } else do {
                  y \<leftarrow> tree_minimum m zr;
                  yc \<leftarrow> fetch m y color;
                  x \<leftarrow> fetch m y right;
                  yp \<leftarrow> fetch m y parent;
                  m \<leftarrow> (if yp = z then (if x \<noteq> None then set_parent x y m else Some m)
                        else do {
                          yr \<leftarrow> fetch m y right;
                          m \<leftarrow> transplant m y yr;
                          zr \<leftarrow> fetch m z right;
                          m \<leftarrow> set_right y zr m;
                          yr \<leftarrow> fetch m y right;
                          if yr \<noteq> None then set_parent yr y m else Some m
                        });
                  m \<leftarrow> transplant m z y;
                  zl \<leftarrow> fetch m z left;
                  m \<leftarrow> set_left y zl m;
                  yl \<leftarrow> fetch m y left;
                  m \<leftarrow> set_parent yl y m;
                  zc \<leftarrow> fetch m z color;
                  m \<leftarrow> store y (\<lambda>n. n\<lparr>color := zc\<rparr>) m;
                  Some (m, x, yc)
                }
              });
           m \<leftarrow> (if y_original_color = RB_BLACK then delete_fixup m x else Some m);
           m \<leftarrow> destroy_node z (config m) m;
           let m = m\<lparr>msize := msize m - 1\<rparr>;
           if stats_enabled m then do {
             let m = count_delete m;
             h \<leftarrow> tree_height m (root m);
             Some (ORDERED_MAP_SUCCESS, Some (m\<lparr>stats := (stats m)\<lparr>current_height := h\<rparr>\<rparr>))
           } else Some (ORDERED_MAP_SUCCESS, Some m)
         }
       }
     | _ \<Rightarrow> Some (ORDERED_MAP_ERROR_NULL_POINTER, mp))"

text \<open>
  The queries \<open>get\<close> and \<open>contains\<close> update the statistics block, so they return the map
  handle's state next to their result.
\<close>

definition ordered_map_get :: "('k, 'v) ordered_map_t option \<Rightarrow> 'k option \<Rightarrow>
    ('v option \<times> ('k, 'v) ordered_map_t option) option" where
  "ordered_map_get mp kp =
    (case (mp, kp) of
       (Some m, Some k) \<Rightarrow> do {
         compare \<leftarrow> key_compare (config m);
         node \<leftarrow> tree_search m (root m) k compare;
         let m = (if stats_enabled m then count_search m else m);
         if node \<noteq> None then do { v \<leftarrow> fetch m node val; Some (Some v, Some m) }
         else Some (None, Some m)
       }
     | _ \<Rightarrow> Some (None, mp))"

definition ordered_map_contains :: "('k, 'v) ordered_map_t option \<Rightarrow> 'k option \<Rightarrow>
    (bool \<times> ('k, 'v) ordered_map_t option) option" where
  "ordered_map_contains mp kp =
    (case (mp, kp) of
       (Some m, Some k) \<Rightarrow> do {
         compare \<leftarrow> key_compare (config m);
         node \<leftarrow> tree_search m (root m) k compare;
         let result = (node \<noteq> None);
         Some (result, Some (if stats_enabled m then count_search m else m))
       }
     | _ \<Rightarrow> Some (False, mp))"

definition ordered_map_empty :: "('k, 'v) ordered_map_t option \<Rightarrow> bool" where
  "ordered_map_empty mp = (case mp of None \<Rightarrow> True | Some m \<Rightarrow> msize m = 0)"

definition ordered_map_size :: "('k, 'v) ordered_map_t option \<Rightarrow> 64 word" where
  "ordered_map_size mp = (case mp of None \<Rightarrow> 0 | Some m \<Rightarrow> msize m)"

definition ordered_map_get_or_default :: "('k, 'v) ordered_map_t option \<Rightarrow> 'k option \<Rightarrow> 'v option \<Rightarrow>
    ('v option \<times> ('k, 'v) ordered_map_t option) option" where
  "ordered_map_get_or_default mp kp default_value = do {
     (v, mp) \<leftarrow> ordered_map_get mp kp;
     Some (if v \<noteq> None then v else default_value, mp)
   }"

definition ordered_map_put_if_absent :: "('k, 'v) ordered_map_t option \<Rightarrow> 'k option \<Rightarrow> 'v option \<Rightarrow>
    (ordered_map_error_t \<times> ('k, 'v) ordered_map_t option) option" where
  "ordered_map_put_if_absent mp kp vp = do {
     (c, mp) \<leftarrow> ordered_map_contains mp kp;
     if c then Some (ORDERED_MAP_SUCCESS, mp) else ordered_map_insert mp kp vp
   }"

definition ordered_map_replace :: "('k, 'v) ordered_map_t option \<Rightarrow> 'k option \<Rightarrow> 'v option \<Rightarrow>
    (ordered_map_error_t \<times> ('k, 'v) ordered_map_t option) option" where
  "ordered_map_replace mp kp vp = do {
     (c, mp) \<leftarrow> ordered_map_contains mp kp;
     if \<not> c then Some (ORDERED_MAP_ERROR_KEY_NOT_FOUND, mp) else ordered_map_insert mp kp vp
   }"

definition ordered_map_replace_if_present :: "('k, 'v) ordered_map_t option \<Rightarrow> 'k option \<Rightarrow> 'v option \<Rightarrow>
    (ordered_map_error_t \<times> ('k, 'v) ordered_map_t option) option" where
  "ordered_map_replace_if_present mp kp vp = do {
     (c, mp) \<leftarrow> ordered_map_contains mp kp;
     if \<not> c then Some (ORDERED_MAP_SUCCESS, mp) else ordered_map_insert mp kp vp
   }"

definition ordered_map_clear :: "('k, 'v) ordered_map_t option \<Rightarrow>
    (ordered_map_error_t \<times> ('k, 'v) ordered_map_t option) option" where
  "ordered_map_clear mp =
    (case mp of None \<Rightarrow> Some (ORDERED_MAP_ERROR_NULL_POINTER, None)
     | Some m \<Rightarrow> do {
         m \<leftarrow> destroy_tree (root m) (config m) m;
         Some (ORDERED_MAP_SUCCESS, Some (m\<lparr>root := None, msize := 0\<rparr>))
       })"

definition ordered_map_validate :: "('k, 'v) ordered_map_t option \<Rightarrow> bool" where
  "ordered_map_validate mp = (case mp of None \<Rightarrow> False | Some m \<Rightarrow> True)"

subsection \<open>Cursors\<close>

text \<open>
  The iterator keeps a pointer to its map; here the map is passed to the functions that
  follow node pointers. A null iterator handle is \<open>None\<close>.
\<close>

definition ordered_map_iterator_create :: "('k, 'v) ordered_map_t option \<Rightarrow> ordered_map_iter_direction_t \<Rightarrow>
    (ordered_map_iterator_t option \<times> ('k, 'v) ordered_map_t option) option" where
  "ordered_map_iterator_create mp d =
    (case mp of None \<Rightarrow> Some (None, None)
     | Some m \<Rightarrow>
         if avail m = 0 then Some (None, Some m)
         else do {
           let m = m\<lparr>avail := avail m - 1\<rparr>;
           cur \<leftarrow> (if root m = None then Some None
                   else if d = ORDERED_MAP_ITER_FORWARD then tree_minimum m (root m)
                   else tree_maximum m (root m));
           Some (Some \<lparr>current = cur, direction = d, valid = True\<rparr>, Some m)
         })"

definition ordered_map_iterator_has_next :: "ordered_map_iterator_t option \<Rightarrow> bool" where
  "ordered_map_iterator_has_next ip =
    (case ip of None \<Rightarrow> False | Some it \<Rightarrow> valid it \<and> current it \<noteq> None)"

definition ordered_map_iterator_next :: "('k, 'v) ordered_map_t \<Rightarrow> ordered_map_iterator_t option \<Rightarrow>
    (ordered_map_error_t \<times> ordered_map_iterator_t option) option" where
  "ordered_map_iterator_next m ip =
    (case ip of None \<Rightarrow> Some (ORDERED_MAP_ERROR_NULL_POINTER, None)
     | Some it \<Rightarrow>
         if \<not> valid it then Some (ORDERED_MAP_ERROR_ITERATOR_INVALID, ip)
         else if current it = None then Some (ORDERED_MAP_ERROR_ITERATOR_END, ip)
         else do {
           c \<leftarrow> (if direction it = ORDERED_MAP_ITER_FORWARD then tree_successor m (current it)
                 else tree_predecessor m (current it));
           Some (ORDERED_MAP_SUCCESS, Some (it\<lparr>current := c\<rparr>))
         })"

definition ordered_map_iterator_key :: "('k, 'v) ordered_map_t \<Rightarrow> ordered_map_iterator_t option \<Rightarrow> 'k option option" where
  "ordered_map_iterator_key m ip =
    (case ip of None \<Rightarrow> Some None
     | Some it \<Rightarrow> if current it = None then Some None
                  else map_option Some (fetch m (current it) key))"

definition ordered_map_iterator_value :: "('k, 'v) ordered_map_t \<Rightarrow> ordered_map_iterator_t option \<Rightarrow> 'v option option" where
  "ordered_map_iterator_value m ip =
    (case ip of None \<Rightarrow> Some None
     | Some it \<Rightarrow> if current it = None then Some None
                  else map_option Some (fetch m (current it) val))"

text \<open>
  A full traversal, as the loop of \<open>ordered_map_print\<close> runs it: while the cursor has a
  next element, read key and value, then advance. The result is the sequence of the
  (key, value) pointer pairs read.
\<close>

partial_function (option) iterate ::
    "('k, 'v) ordered_map_t \<Rightarrow> ordered_map_iterator_t option \<Rightarrow> ('k option \<times> 'v option) list option" where
  "iterate m ip =
    (if ordered_map_iterator_has_next ip then do {
       k \<leftarrow> ordered_map_iterator_key m ip;
       v \<leftarrow> ordered_map_iterator_value m ip;
       (e, ip) \<leftarrow> ordered_map_iterator_next m ip;
       rest \<leftarrow> iterate m ip;
       Some ((k, v) # rest)
     } else Some [])"

declare iterate.simps [code]

definition traverse :: "('k, 'v) ordered_map_t option \<Rightarrow> ordered_map_iter_direction_t \<Rightarrow> ('k option \<times> 'v option) list option" where
  "traverse mp d = do {
     (ip, mp) \<leftarrow> ordered_map_iterator_create mp d;
     case mp of None \<Rightarrow> Some [] | Some m \<Rightarrow> iterate m ip
   }"

section \<open>The tree a map stores, and the red-black invariants\<close>

text \<open>
  The tree reachable from a node pointer through \<open>left\<close> and \<open>right\<close>, read off the
  node memory: each node with its address, colour, key and value.
\<close>

datatype ('k, 'v) tree = Leaf | Node "('k, 'v) tree" addr rb_color_t 'k 'v "('k, 'v) tree"

partial_function (option) tree_of :: "('k, 'v) ordered_map_t \<Rightarrow> addr option \<Rightarrow> ('k, 'v) tree option" where
  "tree_of m p =
    (case p of None \<Rightarrow> Some Leaf
     | Some a \<Rightarrow> do {
         n \<leftarrow> nodes m a;
         l \<leftarrow> tree_of m (left n);
         r \<leftarrow> tree_of m (right n);
         Some (Node l a (color n) (key n) (val n) r)
       })"

declare tree_of.simps [code]

fun color_of :: "('k, 'v) tree \<Rightarrow> rb_color_t" where
  "color_of Leaf = RB_BLACK"
| "color_of (Node l a c k v r) = c"

text \<open>Invariant 2: the root is black.\<close>

definition root_black :: "('k, 'v) tree \<Rightarrow> bool" where
  "root_black t = (color_of t = RB_BLACK)"

text \<open>Invariant 4: no red node has a red child.\<close>

fun no_red_red :: "('k, 'v) tree \<Rightarrow> bool" where
  "no_red_red Leaf = True"
| "no_red_red (Node l a c k v r) =
     ((c = RB_BLACK \<or> (color_of l = RB_BLACK \<and> color_of r = RB_BLACK)) \<and> no_red_red l \<and> no_red_red r)"

text \<open>
  Invariant 5: \<open>black_heights t\<close> is the list of the numbers of black nodes on the paths
  from the root of \<open>t\<close> to each of its leaves, from left to right; the invariant holds
  at every node iff all the numbers are equal.
\<close>

fun black_heights :: "('k, 'v) tree \<Rightarrow> nat list" where
  "black_heights Leaf = [0]"
| "black_heights (Node l a c k v r) =
     map (\<lambda>h. if c = RB_BLACK then Suc h else h) (black_heights l @ black_heights r)"

definition black_balanced :: "('k, 'v) tree \<Rightarrow> bool" where
  "black_balanced t = list_all (\<lambda>h. h = hd (black_heights t)) (black_heights t)"

definition red_black :: "('k, 'v) tree \<Rightarrow> bool" where
  "red_black t = (root_black t \<and> no_red_red t \<and> black_balanced t)"

text \<open>The test suite's integer policy and comparator (\<open>test_ordered_map.c\<close>).\<close>

definition int_compare :: "int \<Rightarrow> int \<Rightarrow> int" where
  "int_compare ia ib = (if ia > ib then 1 else 0) - (if ia < ib then 1 else 0)"

definition int_config :: "(int, int) ordered_map_config_t" where
  "int_config = \<lparr>key_compare = Some int_compare, key_destructor = True, value_destructor = True,
                  key_copy = None, value_copy = None, key_size = 4, value_size = 4\<rparr>"

text \<open>
  A copy/destroy policy over integers (\<open>key_size = value_size = 0\<close>, all four callbacks
  set, as in the suite's string and record policies); the value copy callback is a
  parameter, so that it can be made to return \<open>NULL\<close>.
\<close>

definition copy_config :: "(int \<Rightarrow> int option) \<Rightarrow> (int, int) ordered_map_config_t" where
  "copy_config vcopy = \<lparr>key_compare = Some int_compare, key_destructor = True, value_destructor = True,
                         key_copy = Some (\<lambda>k. Some k), value_copy = Some vcopy,
                         key_size = 0, value_size = 0\<rparr>"

text \<open>Running a list of insertions and removals, stopping at the first one that fails.\<close>

datatype ('k, 'v) op = Insert 'k 'v | Remove 'k

fun run_op :: "('k, 'v) op \<Rightarrow> ('k, 'v) ordered_map_t \<Rightarrow> ('k, 'v) ordered_map_t option" where
  "run_op (Insert k v) m =
     (case ordered_map_insert (Some m) (Some k) (Some v) of
        Some (ORDERED_MAP_SUCCESS, Some m') \<Rightarrow> Some m' | _ \<Rightarrow> None)"
| "run_op (Remove k) m =
     (case ordered_map_remove (Some m) (Some k) of
        Some (ORDERED_MAP_SUCCESS, Some m') \<Rightarrow> Some m' | _ \<Rightarrow> None)"

fun run_ops :: "('k, 'v) op list \<Rightarrow> ('k, 'v) ordered_map_t \<Rightarrow> ('k, 'v) ordered_map_t option" where
  "run_ops [] m = Some m"
| "run_ops (x # xs) m = (case run_op x m of None \<Rightarrow> None | Some m' \<Rightarrow> run_ops xs m')"

section \<open>Abstraction: the tree in the node memory\<close>

fun ptr :: "('k, 'v) tree \<Rightarrow> addr option" where
  "ptr Leaf = None"
| "ptr (Node l a c k v r) = Some a"

fun addrs :: "('k, 'v) tree \<Rightarrow> addr list" where
  "addrs Leaf = []"
| "addrs (Node l a c k v r) = addrs l @ a # addrs r"

text \<open>The in-order sequence of a tree: each binding with the address of its node.\<close>

fun inorder :: "('k, 'v) tree \<Rightarrow> (addr \<times> 'k \<times> 'v) list" where
  "inorder Leaf = []"
| "inorder (Node l a c k v r) = inorder l @ (a, k, v) # inorder r"

definition bindings_of :: "('k, 'v) tree \<Rightarrow> ('k \<times> 'v) list" where
  "bindings_of t = map snd (inorder t)"

definition keys_of :: "('k, 'v) tree \<Rightarrow> 'k list" where
  "keys_of t = map (\<lambda>(a, k, v). k) (inorder t)"

definition mk_node :: "addr option \<Rightarrow> ('k, 'v) tree \<Rightarrow> rb_color_t \<Rightarrow> 'k \<Rightarrow> 'v \<Rightarrow> ('k, 'v) tree \<Rightarrow> ('k, 'v) rb_node_t" where
  "mk_node par l c k v r = \<lparr>key = k, val = v, parent = par, left = ptr l, right = ptr r, color = c\<rparr>"

text \<open>
  \<open>repr h par t\<close>: the node memory \<open>h\<close> holds the tree \<open>t\<close>, whose root has parent
  pointer \<open>par\<close>: every node of \<open>t\<close> is allocated, with the key, value, colour and child
  pointers \<open>t\<close> gives it and with its parent pointer at the node above it.
\<close>

fun repr :: "(addr \<Rightarrow> ('k, 'v) rb_node_t option) \<Rightarrow> addr option \<Rightarrow> ('k, 'v) tree \<Rightarrow> bool" where
  "repr h par Leaf = True"
| "repr h par (Node l a c k v r) =
     (h a = Some (mk_node par l c k v r) \<and> repr h (Some a) l \<and> repr h (Some a) r)"

fun parents_ok :: "(addr \<Rightarrow> ('k, 'v) rb_node_t option) \<Rightarrow> addr option \<Rightarrow> ('k, 'v) tree \<Rightarrow> bool" where
  "parents_ok h par Leaf = True"
| "parents_ok h par (Node l a c k v r) =
     ((case h a of None \<Rightarrow> False | Some n \<Rightarrow> parent n = par) \<and>
      parents_ok h (Some a) l \<and> parents_ok h (Some a) r)"

text \<open>
  A well-formed map (the map-level invariants of the data model): the nodes reachable
  from the root form a tree with consistent parent pointers and pairwise distinct
  nodes, allocated below the allocation pointer; the root is black; a comparator is
  configured and the in-order key sequence is strictly ascending under it.
\<close>

definition wf_map :: "('k, 'v) ordered_map_t \<Rightarrow> bool" where
  "wf_map m =
    (case tree_of m (root m) of None \<Rightarrow> False
     | Some t \<Rightarrow>
         parents_ok (nodes m) None t \<and> distinct (addrs t) \<and>
         list_all (\<lambda>a. a < next_addr m) (addrs t) \<and> root_black t \<and>
         (case key_compare (config m) of None \<Rightarrow> False
          | Some cmp \<Rightarrow> sorted_wrt (\<lambda>x y. cmp x y < 0) (keys_of t)))"

text \<open>The bindings of a map in in-order sequence; \<open>None\<close> if the nodes do not form a tree.\<close>

definition bindings :: "('k, 'v) ordered_map_t \<Rightarrow> ('k \<times> 'v) list option" where
  "bindings m = map_option bindings_of (tree_of m (root m))"

text \<open>
  The requirement on the comparator callback: it orders the keys totally, up to the
  equivalence \<open>compare a b = 0\<close>.
\<close>

definition comparator_ok :: "('k \<Rightarrow> 'k \<Rightarrow> int) \<Rightarrow> bool" where
  "comparator_ok cmp =
    ((\<forall>a b. (cmp a b < 0) = (cmp b a > 0)) \<and>
     (\<forall>a b c. cmp a b \<le> 0 \<and> cmp b c \<le> 0 \<longrightarrow> cmp a c \<le> 0))"

text \<open>
  Materialization of a key and of a value under the policy: the object the new binding
  stores (byte copy in inline mode, the copy callback's result in copy mode, the
  caller's pointer otherwise); \<open>None\<close> if the copy callback returns \<open>NULL\<close>.
\<close>

definition stored_key :: "('k, 'v) ordered_map_config_t \<Rightarrow> 'k \<Rightarrow> 'k option" where
  "stored_key cfg k =
    (if key_size cfg > 0 then Some k
     else case key_copy cfg of Some cp \<Rightarrow> cp k | None \<Rightarrow> Some k)"

definition stored_value :: "('k, 'v) ordered_map_config_t \<Rightarrow> 'v \<Rightarrow> 'v option" where
  "stored_value cfg v =
    (if value_size cfg > 0 then Some v
     else case value_copy cfg of Some cp \<Rightarrow> cp v | None \<Rightarrow> Some v)"

text \<open>
  The requirement on the policy: the comparator is an order as above, and a
  materialized key is equivalent to the key it was made from.
\<close>

definition policy_ok :: "('k, 'v) ordered_map_config_t \<Rightarrow> bool" where
  "policy_ok cfg =
    (case key_compare cfg of None \<Rightarrow> False
     | Some cmp \<Rightarrow> comparator_ok cmp \<and> (\<forall>k k'. stored_key cfg k = Some k' \<longrightarrow> cmp k k' = 0))"

subsection \<open>Positions in a tree\<close>

text \<open>
  A position in a tree is the path from it up to the root: for each node on the path,
  on which side the path comes up, the node, and the subtree on the other side.
\<close>

datatype dir = Lft | Rgt

datatype ('k, 'v) frame = Frame dir addr rb_color_t 'k 'v "('k, 'v) tree"

fun fill :: "('k, 'v) frame \<Rightarrow> ('k, 'v) tree \<Rightarrow> ('k, 'v) tree" where
  "fill (Frame Lft a c k v s) t = Node t a c k v s"
| "fill (Frame Rgt a c k v s) t = Node s a c k v t"

fun plug :: "('k, 'v) frame list \<Rightarrow> ('k, 'v) tree \<Rightarrow> ('k, 'v) tree" where
  "plug [] t = t"
| "plug (f # fs) t = plug fs (fill f t)"

fun cpar :: "('k, 'v) frame list \<Rightarrow> addr option" where
  "cpar [] = None"
| "cpar (Frame d a c k v s # fs) = Some a"

fun faddr :: "('k, 'v) frame \<Rightarrow> addr" where
  "faddr (Frame d a c k v s) = a"

fun fcolor :: "('k, 'v) frame \<Rightarrow> rb_color_t" where
  "fcolor (Frame d a c k v s) = c"

fun ctx_addrs :: "('k, 'v) frame list \<Rightarrow> addr list" where
  "ctx_addrs [] = []"
| "ctx_addrs (Frame d a c k v s # fs) = a # addrs s @ ctx_addrs fs"

fun ctx_before :: "('k, 'v) frame list \<Rightarrow> (addr \<times> 'k \<times> 'v) list" where
  "ctx_before [] = []"
| "ctx_before (Frame Lft a c k v s # fs) = ctx_before fs"
| "ctx_before (Frame Rgt a c k v s # fs) = ctx_before fs @ inorder s @ [(a, k, v)]"

fun ctx_after :: "('k, 'v) frame list \<Rightarrow> (addr \<times> 'k \<times> 'v) list" where
  "ctx_after [] = []"
| "ctx_after (Frame Lft a c k v s # fs) = (a, k, v) # inorder s @ ctx_after fs"
| "ctx_after (Frame Rgt a c k v s # fs) = ctx_after fs"

text \<open>\<open>repr_map m t\<close>: the map's root pointer and node memory hold the tree \<open>t\<close>.\<close>

definition repr_map :: "('k, 'v) ordered_map_t \<Rightarrow> ('k, 'v) tree \<Rightarrow> bool" where
  "repr_map m t = (root m = ptr t \<and> repr (nodes m) None t \<and> distinct (addrs t))"

text \<open>The functional counterparts of the search loops.\<close>

fun find_node :: "('k \<Rightarrow> 'k \<Rightarrow> int) \<Rightarrow> 'k \<Rightarrow> ('k, 'v) tree \<Rightarrow> ('k, 'v) tree" where
  "find_node cmp x Leaf = Leaf"
| "find_node cmp x (Node l a c k v r) =
     (if cmp x k = 0 then Node l a c k v r
      else if cmp x k < 0 then find_node cmp x l else find_node cmp x r)"

fun path_to :: "('k \<Rightarrow> 'k \<Rightarrow> int) \<Rightarrow> 'k \<Rightarrow> ('k, 'v) tree \<Rightarrow> ('k, 'v) frame list \<Rightarrow> ('k, 'v) frame list" where
  "path_to cmp x Leaf fs = fs"
| "path_to cmp x (Node l a c k v r) fs =
     (if cmp x k < 0 then path_to cmp x l (Frame Lft a c k v r # fs)
      else path_to cmp x r (Frame Rgt a c k v l # fs))"

fun ins_list :: "('k \<Rightarrow> 'k \<Rightarrow> int) \<Rightarrow> (addr \<times> 'k \<times> 'v) \<Rightarrow> (addr \<times> 'k \<times> 'v) list \<Rightarrow> (addr \<times> 'k \<times> 'v) list" where
  "ins_list cmp e [] = [e]"
| "ins_list cmp e (x # xs) =
     (if cmp (fst (snd e)) (fst (snd x)) < 0 then e # x # xs else x # ins_list cmp e xs)"

text \<open>The value bound to a key in an in-order binding sequence.\<close>

definition lookup :: "('k \<Rightarrow> 'k \<Rightarrow> int) \<Rightarrow> 'k \<Rightarrow> ('k \<times> 'v) list \<Rightarrow> 'v option" where
  "lookup cmp x kvs = map_option snd (find (\<lambda>(k, v). cmp x k = 0) kvs)"

fun root_val :: "('k, 'v) tree \<Rightarrow> 'v option" where
  "root_val Leaf = None"
| "root_val (Node l a c k v r) = Some v"

fun root_key :: "('k, 'v) tree \<Rightarrow> 'k option" where
  "root_key Leaf = None"
| "root_key (Node l a c k v r) = Some k"

text \<open>Replacing the value of the binding a search for \<open>x\<close> ends at.\<close>

fun update_val :: "('k \<Rightarrow> 'k \<Rightarrow> int) \<Rightarrow> 'k \<Rightarrow> 'v \<Rightarrow> ('k, 'v) tree \<Rightarrow> ('k, 'v) tree" where
  "update_val cmp x w Leaf = Leaf"
| "update_val cmp x w (Node l a c k v r) =
     (if cmp x k = 0 then Node l a c k w r
      else if cmp x k < 0 then Node (update_val cmp x w l) a c k v r
      else Node l a c k v (update_val cmp x w r))"

text \<open>The map after a counted search: \<open>get\<close> and \<open>contains\<close> change the statistics only.\<close>

definition touched :: "('k, 'v) ordered_map_t \<Rightarrow> ('k, 'v) ordered_map_t" where
  "touched m = (if stats_enabled m then count_search m else m)"

text \<open>Rebinding a key in a binding sequence.\<close>

definition set_binding :: "('k \<Rightarrow> 'k \<Rightarrow> int) \<Rightarrow> 'k \<Rightarrow> 'v \<Rightarrow> ('k \<times> 'v) list \<Rightarrow> ('k \<times> 'v) list" where
  "set_binding cmp x w kvs = map (\<lambda>(k, v). if cmp x k = 0 then (k, w) else (k, v)) kvs"

text \<open>
  An example: the map the integer policy reaches by inserting (1, 10), (2, 20), (3, 30)
  into a map created with an allocation budget of 100.
\<close>

definition example_map :: "(int, int) ordered_map_t" where
  "example_map =
     \<lparr>root = Some 1, config = int_config, msize = 3,
      stats = \<lparr>insert_count = 3, delete_count = 0, search_count = 0, total_operations = 3,
               max_height = 2, current_height = 2\<rparr>,
      stats_enabled = True,
      nodes = [0 \<mapsto> \<lparr>key = 1, val = 10, parent = Some 1, left = None, right = None, color = RB_RED\<rparr>,
               1 \<mapsto> \<lparr>key = 2, val = 20, parent = None, left = Some 0, right = Some 2, color = RB_BLACK\<rparr>,
               2 \<mapsto> \<lparr>key = 3, val = 30, parent = Some 1, left = None, right = None, color = RB_RED\<rparr>],
      next_addr = 3, avail = 90, trace = []\<rparr>"

text \<open>The first and the last node address of an in-order sequence.\<close>

fun first_addr :: "(addr \<times> 'k \<times> 'v) list \<Rightarrow> addr option" where
  "first_addr [] = None"
| "first_addr (x # xs) = Some (fst x)"

definition last_addr :: "(addr \<times> 'k \<times> 'v) list \<Rightarrow> addr option" where
  "last_addr xs = first_addr (rev xs)"

text \<open>What a cursor reads at a binding: the pointers to its key and to its value.\<close>

definition cursor_view :: "'k \<times> 'v \<Rightarrow> 'k option \<times> 'v option" where
  "cursor_view kv = (Some (fst kv), Some (snd kv))"

subsection \<open>Tree-level notions for insertion and removal\<close>

fun is_sub :: "('k, 'v) tree \<Rightarrow> ('k, 'v) tree \<Rightarrow> bool" where
  "is_sub s Leaf = (s = Leaf)"
| "is_sub s (Node l a c k v r) = (s = Node l a c k v r \<or> is_sub s l \<or> is_sub s r)"

text \<open>The tree with its root coloured black, as the last step of \<open>insert_fixup\<close> leaves it.\<close>

fun blacken :: "('k, 'v) tree \<Rightarrow> ('k, 'v) tree" where
  "blacken Leaf = Leaf"
| "blacken (Node l a c k v r) = Node l a RB_BLACK k v r"

text \<open>
  \<open>easy_at a s\<close>: the root of \<open>s\<close> is the node \<open>a\<close>, and it is either a leaf node or has a
  left child and a red right child without left child. Removing such a node never
  enters the loop of \<open>delete_fixup\<close>.
\<close>

fun easy_at :: "addr \<Rightarrow> ('k, 'v) tree \<Rightarrow> bool" where
  "easy_at a Leaf = False"
| "easy_at a (Node l b c k v r) =
     (b = a \<and> (case r of Leaf \<Rightarrow> l = Leaf
                | Node rl y cy ky vy rr \<Rightarrow> l \<noteq> Leaf \<and> rl = Leaf \<and> cy = RB_RED))"

text \<open>The subtree that replaces an easy node when it is removed.\<close>

fun removed :: "('k, 'v) tree \<Rightarrow> ('k, 'v) tree" where
  "removed Leaf = Leaf"
| "removed (Node l b c k v Leaf) = Leaf"
| "removed (Node l b c k v (Node rl y cy ky vy rr)) = Node l y c ky vy rr"

section \<open>Lemmas\<close>


section \<open>Basic facts\<close>

lemma fetch_Some [simp]: "fetch m (Some a) f = map_option f (nodes m a)"
  by (simp add: fetch_def)

lemma fetch_None [simp]: "fetch m None f = None"
  by (simp add: fetch_def)

lemma store_Some: "nodes m a = Some n \<Longrightarrow> store (Some a) g m = Some (m\<lparr>nodes := (nodes m)(a \<mapsto> g n)\<rparr>)"
  by (simp add: store_def)

lemma store_None [simp]: "store None g m = None"
  by (simp add: store_def)

lemma get_color_None [simp]: "get_color m None = Some RB_BLACK"
  by (simp add: get_color_def)

lemma get_color_Some [simp]: "get_color m (Some a) = map_option color (nodes m a)"
  by (simp add: get_color_def)

lemma set_color_None [simp]: "set_color None c m = Some m"
  by (simp add: set_color_def)

lemma ptr_eq_None [simp]: "(ptr t = None) = (t = Leaf)"
  by (cases t) auto

lemma ptr_in_addrs: "ptr t = Some a \<Longrightarrow> a \<in> set (addrs t)"
  by (cases t) auto

lemma addrs_inorder: "addrs t = map fst (inorder t)"
  by (induction t) auto

lemma repr_frame: "(\<And>a. a \<in> set (addrs t) \<Longrightarrow> h' a = h a) \<Longrightarrow> repr h' par t = repr h par t"
  by (induction t arbitrary: par) auto

lemma repr_upd_other [simp]: "a \<notin> set (addrs t) \<Longrightarrow> repr (h(a := x)) par t = repr h par t"
  by (rule repr_frame) auto

lemma plug_append: "plug (fs @ gs) t = plug gs (plug fs t)"
  by (induction fs arbitrary: t) auto

lemma frame_cases:
  obtains (Lft) a c k v s where "f = Frame Lft a c k v s"
        | (Rgt) a c k v s where "f = Frame Rgt a c k v s"
proof (cases f)
  case (Frame d a c k v s)
  then show ?thesis using that by (cases d) auto
qed

lemma addrs_fill: "set (addrs (fill f t)) = set (addrs t) \<union> set (ctx_addrs [f])"
  by (cases f rule: frame_cases) auto

lemma set_addrs_plug: "set (addrs (plug fs t)) = set (addrs t) \<union> set (ctx_addrs fs)"
proof (induction fs arbitrary: t)
  case Nil
  then show ?case by simp
next
  case (Cons f fs)
  show ?case
    by (cases f rule: frame_cases) (auto simp: Cons.IH)
qed

lemma inorder_plug: "inorder (plug fs t) = ctx_before fs @ inorder t @ ctx_after fs"
proof (induction fs arbitrary: t)
  case Nil
  then show ?case by simp
next
  case (Cons f fs)
  show ?case
    by (cases f rule: frame_cases) (auto simp: Cons.IH)
qed

lemma distinct_plug_fill: "distinct (addrs (plug (f # fs) t)) \<Longrightarrow> distinct (addrs (fill f t))"
proof -
  assume "distinct (addrs (plug (f # fs) t))"
  then have "distinct (map fst (inorder (plug fs (fill f t))))"
    by (simp add: addrs_inorder)
  then show ?thesis
    by (simp add: inorder_plug addrs_inorder)
qed

lemma distinct_plug_sub: "distinct (addrs (plug fs t)) \<Longrightarrow> distinct (addrs t)"
  by (simp add: addrs_inorder inorder_plug)

lemma distinct_plug_iff:
  "distinct (addrs (plug fs t)) \<longleftrightarrow>
     distinct (addrs t) \<and> distinct (ctx_addrs fs) \<and> set (addrs t) \<inter> set (ctx_addrs fs) = {}"
proof (induction fs arbitrary: t)
  case Nil
  then show ?case by simp
next
  case (Cons f fs)
  show ?case
    by (cases f rule: frame_cases) (auto simp: Cons.IH)
qed

lemma repr_plug_sub: "repr h None (plug fs t) \<Longrightarrow> repr h (cpar fs) t"
proof (induction fs arbitrary: t)
  case Nil
  then show ?case by simp
next
  case (Cons f fs)
  from Cons.IH[OF Cons.prems[simplified]] show ?case
    by (cases f rule: frame_cases) auto
qed

text \<open>Replacing the subtree at a position by one with the same root pointer.\<close>

lemma repr_plug_replace:
  assumes "repr h None (plug fs s)"
    and "distinct (addrs (plug fs s))"
    and "repr h' (cpar fs) s'"
    and "ptr s' = ptr s"
    and "\<And>a. a \<in> set (ctx_addrs fs) \<Longrightarrow> h' a = h a"
  shows "repr h' None (plug fs s')"
  using assms
proof (induction fs arbitrary: s s')
  case Nil
  then show ?case by simp
next
  case (Cons f fs)
  obtain d a c k v sib where f: "f = Frame d a c k v sib" by (cases f)
  have sub: "repr h (cpar fs) (fill f s)"
    using repr_plug_sub[of h fs "fill f s"] Cons.prems(1) by simp
  have dist: "distinct (addrs (fill f s))"
    using Cons.prems(2) by (rule distinct_plug_fill)
  have ha: "h' a = h a" using Cons.prems(5)[of a] f by simp
  have hsib: "repr h' (Some a) sib = repr h (Some a) sib"
    by (rule repr_frame) (use Cons.prems(5) f in auto)
  have new: "repr h' (cpar fs) (fill f s')"
    using sub Cons.prems(3,4) ha hsib f by (cases d) (auto simp: mk_node_def)
  have "repr h' None (plug fs (fill f s'))"
  proof (rule Cons.IH[OF _ _ new])
    show "repr h None (plug fs (fill f s))" using Cons.prems(1) by simp
    show "distinct (addrs (plug fs (fill f s)))" using Cons.prems(2) by simp
    show "ptr (fill f s') = ptr (fill f s)" using f by (cases d) auto
    show "\<And>a. a \<in> set (ctx_addrs fs) \<Longrightarrow> h' a = h a"
      using Cons.prems(5) f by auto
  qed
  then show ?case by simp
qed

lemma ptr_plug: "ptr (plug fs t) = (if fs = [] then ptr t else Some (faddr (last fs)))"
proof (induction fs arbitrary: t)
  case Nil
  then show ?case by simp
next
  case (Cons f fs)
  show ?case
    by (cases f rule: frame_cases) (auto simp: Cons.IH)
qed

lemma repr_map_node:
  "repr_map m (plug fs (Node l a c k v r)) \<Longrightarrow> nodes m a = Some (mk_node (cpar fs) l c k v r)"
  using repr_plug_sub[of "nodes m" fs "Node l a c k v r"] by (simp add: repr_map_def)


section \<open>The tree read off the memory\<close>

lemma tree_of_repr: "repr (nodes m) par t \<Longrightarrow> tree_of m (ptr t) = Some t"
proof (induction t arbitrary: par)
  case Leaf
  show ?case by (subst tree_of.simps) simp
next
  case (Node l a c k v r)
  from Node.prems have hl: "tree_of m (ptr l) = Some l" and hr: "tree_of m (ptr r) = Some r"
    using Node.IH by auto
  from Node.prems have "nodes m a = Some (mk_node par l c k v r)" by simp
  then show ?case
    by (subst tree_of.simps) (simp add: hl hr mk_node_def)
qed

lemma tree_of_sound:
  assumes "tree_of m p = Some t"
  shows "(\<forall>par. parents_ok (nodes m) par t \<longrightarrow> repr (nodes m) par t) \<and> p = ptr t"
proof (rule tree_of.raw_induct[where P = "\<lambda>m p t. (\<forall>par. parents_ok (nodes m) par t \<longrightarrow> repr (nodes m) par t) \<and> p = ptr t", OF _ assms])
  fix tree_of' :: "('a, 'b) ordered_map_t \<Rightarrow> addr option \<Rightarrow> ('a, 'b) tree option" and m p t
  assume IH: "\<And>m p t. tree_of' m p = Some t \<Longrightarrow>
      (\<forall>par. parents_ok (nodes m) par t \<longrightarrow> repr (nodes m) par t) \<and> p = ptr t"
    and eq: "(case p of None \<Rightarrow> Some Leaf
      | Some a \<Rightarrow> nodes m a \<bind> (\<lambda>n. tree_of' m (left n) \<bind> (\<lambda>l. tree_of' m (right n) \<bind>
          (\<lambda>r. Some (Node l a (color n) (key n) (val n) r))))) = Some t"
  show "(\<forall>par. parents_ok (nodes m) par t \<longrightarrow> repr (nodes m) par t) \<and> p = ptr t"
  proof (cases p)
    case None
    with eq show ?thesis by auto
  next
    case (Some a)
    with eq obtain n l r where n: "nodes m a = Some n"
      and l: "tree_of' m (left n) = Some l" and r: "tree_of' m (right n) = Some r"
      and t: "t = Node l a (color n) (key n) (val n) r"
      by (auto split: bind_splits)
    have eta: "n = \<lparr>key = key n, val = val n, parent = parent n, left = left n, right = right n, color = color n\<rparr>"
      by simp
    from IH[OF l] IH[OF r] n t Some eta show ?thesis
      by (auto simp: mk_node_def split: option.splits)
  qed
qed

lemma wf_map_iff:
  "wf_map m \<longleftrightarrow> (\<exists>t cmp. repr_map m t \<and> list_all (\<lambda>a. a < next_addr m) (addrs t) \<and> root_black t \<and>
      key_compare (config m) = Some cmp \<and> sorted_wrt (\<lambda>x y. cmp x y < 0) (keys_of t))"
  (is "?L \<longleftrightarrow> ?R")
proof
  assume ?L
  then obtain t where t: "tree_of m (root m) = Some t"
    by (auto simp: wf_map_def split: option.splits)
  with \<open>?L\<close> have "repr_map m t"
    using tree_of_sound[OF t] by (auto simp: wf_map_def repr_map_def)
  with \<open>?L\<close> t show ?R
    by (auto simp: wf_map_def split: option.splits)
next
  assume ?R
  then obtain t cmp where R: "repr_map m t" and rest: "list_all (\<lambda>a. a < next_addr m) (addrs t)" "root_black t"
      "key_compare (config m) = Some cmp" "sorted_wrt (\<lambda>x y. cmp x y < 0) (keys_of t)"
    by auto
  from R have t: "tree_of m (root m) = Some t"
    using tree_of_repr[of m None t] by (simp add: repr_map_def)
  have "repr h par t \<Longrightarrow> parents_ok h par t" for h par
    by (induction t arbitrary: par) (auto simp: mk_node_def)
  with R rest t show ?L
    by (auto simp: wf_map_def repr_map_def)
qed

lemma repr_map_tree_of: "repr_map m t \<Longrightarrow> tree_of m (root m) = Some t"
  using tree_of_repr[of m None t] by (simp add: repr_map_def)

lemma repr_map_bindings: "repr_map m t \<Longrightarrow> bindings m = Some (bindings_of t)"
  by (simp add: bindings_def repr_map_tree_of)

section \<open>The comparator\<close>

lemma cmp_swap: "comparator_ok cmp \<Longrightarrow> (cmp a b < 0) = (cmp b a > 0)"
  unfolding comparator_ok_def by blast

lemma cmp_refl: "comparator_ok cmp \<Longrightarrow> cmp a a = 0"
  using cmp_swap[of cmp a a] by arith

lemma cmp_gt_iff: "comparator_ok cmp \<Longrightarrow> (cmp a b > 0) = (cmp b a < 0)"
  using cmp_swap[of cmp b a] by simp

lemma cmp_eq_sym: "comparator_ok cmp \<Longrightarrow> (cmp a b = 0) = (cmp b a = 0)"
  using cmp_swap[of cmp a b] cmp_swap[of cmp b a] by arith

lemma cmp_le_trans: "comparator_ok cmp \<Longrightarrow> cmp a b \<le> 0 \<Longrightarrow> cmp b c \<le> 0 \<Longrightarrow> cmp a c \<le> 0"
  unfolding comparator_ok_def by blast

lemma cmp_lt_le_trans:
  assumes "comparator_ok cmp" "cmp a b < 0" "cmp b c \<le> 0"
  shows "cmp a c < 0"
proof (rule ccontr)
  assume "\<not> cmp a c < 0"
  moreover have "cmp a c \<le> 0" using cmp_le_trans[OF assms(1), of a b c] assms by simp
  ultimately have "cmp a c = 0" by simp
  then have "cmp c a \<le> 0" using cmp_eq_sym[OF assms(1), of a c] by simp
  then have "cmp b a \<le> 0" using cmp_le_trans[OF assms(1) assms(3)] by simp
  moreover have "cmp b a > 0" using cmp_swap[OF assms(1), of a b] assms(2) by simp
  ultimately show False by simp
qed

lemma cmp_le_lt_trans:
  assumes "comparator_ok cmp" "cmp a b \<le> 0" "cmp b c < 0"
  shows "cmp a c < 0"
proof (rule ccontr)
  assume "\<not> cmp a c < 0"
  moreover have "cmp a c \<le> 0" using cmp_le_trans[OF assms(1), of a b c] assms by simp
  ultimately have "cmp a c = 0" by simp
  then have "cmp c a \<le> 0" using cmp_eq_sym[OF assms(1), of a c] by simp
  then have "cmp c b \<le> 0" using cmp_le_trans[OF assms(1) _ assms(2)] by simp
  moreover have "cmp c b > 0" using cmp_swap[OF assms(1), of b c] assms(3) by simp
  ultimately show False by simp
qed

lemma cmp_lt_trans: "comparator_ok cmp \<Longrightarrow> cmp a b < 0 \<Longrightarrow> cmp b c < 0 \<Longrightarrow> cmp a c < 0"
  using cmp_lt_le_trans[of cmp a b c] by simp

section \<open>Search\<close>

lemma tree_search_find: "repr (nodes m) par t \<Longrightarrow> tree_search m (ptr t) x cmp = Some (ptr (find_node cmp x t))"
proof (induction t arbitrary: par)
  case Leaf
  show ?case by (subst tree_search.simps) simp
next
  case (Node l a c k v r)
  from Node.prems have n: "nodes m a = Some (mk_node par l c k v r)" by simp
  from Node.prems Node.IH have
    hl: "tree_search m (ptr l) x cmp = Some (ptr (find_node cmp x l))" and
    hr: "tree_search m (ptr r) x cmp = Some (ptr (find_node cmp x r))" by auto
  show ?case
    by (subst tree_search.simps) (simp add: n hl hr mk_node_def Let_def)
qed

lemma lookup_append:
  "lookup cmp x (xs @ ys) = (case lookup cmp x xs of None \<Rightarrow> lookup cmp x ys | Some v \<Rightarrow> Some v)"
  by (induction xs) (auto simp: lookup_def)

lemma lookup_none: "(\<And>k v. (k, v) \<in> set xs \<Longrightarrow> cmp x k \<noteq> 0) \<Longrightarrow> lookup cmp x xs = None"
  by (induction xs) (auto simp: lookup_def)

lemma keys_of_Node [simp]: "keys_of (Node l a c k v r) = keys_of l @ k # keys_of r"
  by (simp add: keys_of_def)

lemma keys_of_Leaf [simp]: "keys_of Leaf = []"
  by (simp add: keys_of_def)

lemma bindings_of_Node [simp]: "bindings_of (Node l a c k v r) = bindings_of l @ (k, v) # bindings_of r"
  by (simp add: bindings_of_def)

lemma bindings_of_Leaf [simp]: "bindings_of Leaf = []"
  by (simp add: bindings_of_def)

lemma keys_of_bindings: "keys_of t = map fst (bindings_of t)"
  by (induction t) auto

lemma find_node_lookup:
  assumes "comparator_ok cmp"
  shows "sorted_wrt (\<lambda>x y. cmp x y < 0) (keys_of t) \<Longrightarrow> root_val (find_node cmp x t) = lookup cmp x (bindings_of t)"
proof (induction t)
  case Leaf
  show ?case by (simp add: lookup_def)
next
  case (Node l a c k v r)
  from Node.prems have sl: "sorted_wrt (\<lambda>x y. cmp x y < 0) (keys_of l)"
    and sr: "sorted_wrt (\<lambda>x y. cmp x y < 0) (keys_of r)"
    and lk: "\<And>y. y \<in> set (keys_of l) \<Longrightarrow> cmp y k < 0"
    and kr: "\<And>y. y \<in> set (keys_of r) \<Longrightarrow> cmp k y < 0"
    by (auto simp: sorted_wrt_append)
  consider (eq) "cmp x k = 0" | (lt) "cmp x k < 0" | (gt) "cmp x k > 0" by linarith
  then show ?case
  proof cases
    case eq
    have "lookup cmp x (bindings_of l) = None"
    proof (rule lookup_none)
      fix k' v' assume "(k', v') \<in> set (bindings_of l)"
      then have "k' \<in> set (keys_of l)" by (force simp: keys_of_bindings)
      then have "cmp k' k < 0" by (rule lk)
      moreover have "cmp k x \<le> 0" using eq cmp_eq_sym[OF assms, of x k] by simp
      ultimately have "cmp k' x < 0" using cmp_lt_le_trans[OF assms] by blast
      then show "cmp x k' \<noteq> 0" using cmp_eq_sym[OF assms, of x k'] by simp
    qed
    with eq show ?thesis by (simp add: lookup_append) (simp add: lookup_def)
  next
    case lt
    have "lookup cmp x ((k, v) # bindings_of r) = None"
    proof (rule lookup_none)
      fix k' v' assume "(k', v') \<in> set ((k, v) # bindings_of r)"
      then have "k' = k \<or> k' \<in> set (keys_of r)" by (force simp: keys_of_bindings)
      then have "cmp k k' \<le> 0" using kr cmp_refl[OF assms, of k] by force
      then have "cmp x k' < 0" using cmp_lt_le_trans[OF assms lt] by blast
      then show "cmp x k' \<noteq> 0" by simp
    qed
    with lt Node.IH(1)[OF sl] show ?thesis
      by (simp add: lookup_append split: option.splits)
  next
    case gt
    have "lookup cmp x (bindings_of l @ [(k, v)]) = None"
    proof (rule lookup_none)
      fix k' v' assume "(k', v') \<in> set (bindings_of l @ [(k, v)])"
      then have "k' = k \<or> k' \<in> set (keys_of l)" by (force simp: keys_of_bindings)
      then have "cmp k' k \<le> 0" using lk cmp_refl[OF assms, of k] by force
      moreover have "cmp k x < 0" using gt cmp_gt_iff[OF assms] by simp
      ultimately have "cmp k' x < 0" using cmp_le_lt_trans[OF assms] by blast
      then show "cmp x k' \<noteq> 0" using cmp_eq_sym[OF assms, of x k'] by simp
    qed
    then have "lookup cmp x (bindings_of (Node l a c k v r)) = lookup cmp x (bindings_of r)"
      using lookup_append[of cmp x "bindings_of l @ [(k, v)]" "bindings_of r"] by simp
    with gt Node.IH(2)[OF sr] show ?thesis by simp
  qed
qed

lemma find_node_ptr_val:
  "repr (nodes m) par t \<Longrightarrow> fetch m (ptr (find_node cmp x t)) val = root_val (find_node cmp x t)"
  "repr (nodes m) par t \<Longrightarrow> (ptr (find_node cmp x t) = None) = (root_val (find_node cmp x t) = None)"
  by (induction t arbitrary: par) (auto simp: mk_node_def)


section \<open>Queries\<close>

lemma nodes_count_search [simp]: "nodes (count_search m) = nodes m" "root (count_search m) = root m"
  "msize (count_search m) = msize m" "config (count_search m) = config m"
  "next_addr (count_search m) = next_addr m" "trace (count_search m) = trace m"
  "avail (count_search m) = avail m" "stats_enabled (count_search m) = stats_enabled m"
  by (simp_all add: count_search_def)

lemma nodes_count_insert [simp]: "nodes (count_insert m) = nodes m" "root (count_insert m) = root m"
  "msize (count_insert m) = msize m" "config (count_insert m) = config m"
  "next_addr (count_insert m) = next_addr m" "trace (count_insert m) = trace m"
  "avail (count_insert m) = avail m" "stats_enabled (count_insert m) = stats_enabled m"
  by (simp_all add: count_insert_def)

lemma nodes_count_delete [simp]: "nodes (count_delete m) = nodes m" "root (count_delete m) = root m"
  "msize (count_delete m) = msize m" "config (count_delete m) = config m"
  "next_addr (count_delete m) = next_addr m" "trace (count_delete m) = trace m"
  "avail (count_delete m) = avail m" "stats_enabled (count_delete m) = stats_enabled m"
  by (simp_all add: count_delete_def)

lemma nodes_log_event [simp]: "nodes (log_event e m) = nodes m" "root (log_event e m) = root m"
  "msize (log_event e m) = msize m" "config (log_event e m) = config m"
  "next_addr (log_event e m) = next_addr m" "trace (log_event e m) = trace m @ [e]"
  "avail (log_event e m) = avail m" "stats_enabled (log_event e m) = stats_enabled m"
  "stats (log_event e m) = stats m"
  by (simp_all add: log_event_def)

lemma repr_map_cong: "nodes m' = nodes m \<Longrightarrow> root m' = root m \<Longrightarrow> repr_map m' t = repr_map m t"
  by (simp add: repr_map_def)

lemma wf_map_cong:
  "nodes m' = nodes m \<Longrightarrow> root m' = root m \<Longrightarrow> next_addr m' = next_addr m \<Longrightarrow> config m' = config m
    \<Longrightarrow> wf_map m' = wf_map m"
  by (simp add: wf_map_iff repr_map_def)

lemma tree_of_nodes_le:
  assumes nm: "nodes m' = nodes m" and h: "tree_of m' p = Some t"
  shows "tree_of m p = Some t"
proof -
  have "nodes m' = nodes m \<longrightarrow> tree_of m p = Some t"
  proof (rule tree_of.raw_induct[where P = "\<lambda>m0 p t. nodes m0 = nodes m \<longrightarrow> tree_of m p = Some t", OF _ h])
    fix tree_of' :: "('a, 'b) ordered_map_t \<Rightarrow> addr option \<Rightarrow> ('a, 'b) tree option" and m0 p t
    assume IH: "\<And>m0 p t. tree_of' m0 p = Some t \<Longrightarrow> nodes m0 = nodes m \<longrightarrow> tree_of m p = Some t"
      and eq: "(case p of None \<Rightarrow> Some Leaf
        | Some a \<Rightarrow> nodes m0 a \<bind> (\<lambda>n. tree_of' m0 (left n) \<bind> (\<lambda>l. tree_of' m0 (right n) \<bind>
            (\<lambda>r. Some (Node l a (color n) (key n) (val n) r))))) = Some t"
    show "nodes m0 = nodes m \<longrightarrow> tree_of m p = Some t"
    proof
      assume nm: "nodes m0 = nodes m"
      show "tree_of m p = Some t"
      proof (cases p)
        case None
        with eq show ?thesis by (subst tree_of.simps) auto
      next
        case (Some a)
        with eq obtain n l r where n: "nodes m0 a = Some n"
          and l: "tree_of' m0 (left n) = Some l" and r: "tree_of' m0 (right n) = Some r"
          and t: "t = Node l a (color n) (key n) (val n) r"
          by (auto split: bind_splits)
        have l': "tree_of m (left n) = Some l" using IH[OF l] nm by simp
        have r': "tree_of m (right n) = Some r" using IH[OF r] nm by simp
        have n': "nodes m a = Some n" using n nm by simp
        show ?thesis
          by (subst tree_of.simps) (simp add: Some n' l' r' t)
      qed
    qed
  qed
  with nm show ?thesis by simp
qed

lemma tree_of_cong:
  assumes "nodes m' = nodes m"
  shows "tree_of m' p = tree_of m p"
proof (cases "tree_of m' p")
  case None
  show ?thesis
  proof (cases "tree_of m p")
    case (Some t)
    from tree_of_nodes_le[OF assms[symmetric] Some] None show ?thesis by simp
  qed (simp add: None)
next
  case (Some t)
  from tree_of_nodes_le[OF assms Some] Some show ?thesis by simp
qed

lemma bindings_cong: "nodes m' = nodes m \<Longrightarrow> root m' = root m \<Longrightarrow> bindings m' = bindings m"
  using tree_of_cong[of m' m "root m"] by (simp add: bindings_def)

lemma get_spec:
  assumes "repr_map m t" "key_compare (config m) = Some cmp" "comparator_ok cmp"
    "sorted_wrt (\<lambda>x y. cmp x y < 0) (keys_of t)"
  shows "ordered_map_get (Some m) (Some x) =
      Some (lookup cmp x (bindings_of t), Some (if stats_enabled m then count_search m else m))"
proof -
  from assms(1) have r: "repr (nodes m) None t" and rt: "root m = ptr t" by (auto simp: repr_map_def)
  have s: "tree_search m (root m) x cmp = Some (ptr (find_node cmp x t))"
    using tree_search_find[OF r] rt by simp
  have v: "fetch m (ptr (find_node cmp x t)) val = root_val (find_node cmp x t)"
    and e: "(ptr (find_node cmp x t) = None) = (root_val (find_node cmp x t) = None)"
    using find_node_ptr_val[OF r] by auto
  have l: "root_val (find_node cmp x t) = lookup cmp x (bindings_of t)"
    by (rule find_node_lookup[OF assms(3,4)])
  show ?thesis
    using v e unfolding l[symmetric]
    by (cases "find_node cmp x t") (auto simp: ordered_map_get_def assms(2) s Let_def)
qed

lemma contains_spec:
  assumes "repr_map m t" "key_compare (config m) = Some cmp" "comparator_ok cmp"
    "sorted_wrt (\<lambda>x y. cmp x y < 0) (keys_of t)"
  shows "ordered_map_contains (Some m) (Some x) =
      Some (lookup cmp x (bindings_of t) \<noteq> None, Some (if stats_enabled m then count_search m else m))"
proof -
  from assms(1) have r: "repr (nodes m) None t" and rt: "root m = ptr t" by (auto simp: repr_map_def)
  have s: "tree_search m (root m) x cmp = Some (ptr (find_node cmp x t))"
    using tree_search_find[OF r] rt by simp
  have e: "(ptr (find_node cmp x t) = None) = (root_val (find_node cmp x t) = None)"
    using find_node_ptr_val[OF r] by auto
  have l: "root_val (find_node cmp x t) = lookup cmp x (bindings_of t)"
    by (rule find_node_lookup[OF assms(3,4)])
  show ?thesis
    using e unfolding l[symmetric]
    by (cases "find_node cmp x t") (auto simp: ordered_map_contains_def assms(2) s Let_def)
qed

lemma wf_mapE:
  assumes "wf_map m"
  obtains t cmp where "repr_map m t" "list_all (\<lambda>a. a < next_addr m) (addrs t)" "root_black t"
      "key_compare (config m) = Some cmp" "sorted_wrt (\<lambda>x y. cmp x y < 0) (keys_of t)"
      "bindings m = Some (bindings_of t)"
proof -
  from assms obtain t cmp where a: "repr_map m t" "list_all (\<lambda>a. a < next_addr m) (addrs t)" "root_black t"
      "key_compare (config m) = Some cmp" "sorted_wrt (\<lambda>x y. cmp x y < 0) (keys_of t)"
    unfolding wf_map_iff by blast
  from a(1) have "bindings m = Some (bindings_of t)" by (rule repr_map_bindings)
  with a show ?thesis by (rule that)
qed

lemma policy_okD:
  "policy_ok cfg \<Longrightarrow> key_compare cfg = Some cmp \<Longrightarrow> comparator_ok cmp"
  "policy_ok cfg \<Longrightarrow> key_compare cfg = Some cmp \<Longrightarrow> stored_key cfg k = Some k' \<Longrightarrow> cmp k k' = 0"
  by (auto simp: policy_ok_def)


section \<open>Overwriting the value of an existing binding\<close>

lemma find_node_in_addrs: "ptr (find_node cmp x t) = Some a \<Longrightarrow> a \<in> set (addrs t)"
  by (induction t) (auto split: if_splits)

lemma find_node_allocated: "repr h par t \<Longrightarrow> ptr (find_node cmp x t) = Some a \<Longrightarrow> \<exists>n. h a = Some n"
  by (induction t arbitrary: par) (auto split: if_splits)

lemma ptr_update_val [simp]: "ptr (update_val cmp x w t) = ptr t"
  by (cases t) auto

lemma addrs_update_val [simp]: "addrs (update_val cmp x w t) = addrs t"
  by (induction t) auto

lemma keys_of_update_val [simp]: "keys_of (update_val cmp x w t) = keys_of t"
  by (induction t) auto

lemma color_of_update_val [simp]: "color_of (update_val cmp x w t) = color_of t"
  by (cases t) auto

lemma find_update_val:
  "find_node cmp x t \<noteq> Leaf \<Longrightarrow> root_val (find_node cmp x (update_val cmp x w t)) = Some w"
  by (induction t) auto

lemma find_update_val_key:
  "root_key (find_node cmp x (update_val cmp x w t)) = root_key (find_node cmp x t)"
  by (induction t) auto

lemma find_update_val_ptr:
  "ptr (find_node cmp x (update_val cmp x w t)) = ptr (find_node cmp x t)"
  by (induction t) auto

lemma repr_update_val_gen:
  assumes "h' a = Some (n\<lparr>val := w\<rparr>)" and fr: "\<And>b. b \<noteq> a \<Longrightarrow> h' b = h b"
  shows "repr h par t \<Longrightarrow> distinct (addrs t) \<Longrightarrow> ptr (find_node cmp x t) = Some a \<Longrightarrow> h a = Some n \<Longrightarrow>
   repr h' par (update_val cmp x w t)"
proof (induction t arbitrary: par)
  case Leaf
  then show ?case by simp
next
  case (Node l b c k v r)
  consider (eq) "cmp x k = 0" | (lt) "cmp x k \<noteq> 0" "cmp x k < 0" | (gt) "cmp x k \<noteq> 0" "\<not> cmp x k < 0"
    by blast
  then show ?case
  proof cases
    case eq
    with Node.prems have ab: "b = a" and nl: "a \<notin> set (addrs l)" and nr: "a \<notin> set (addrs r)" by auto
    have hl: "repr h' (Some b) l = repr h (Some b) l"
      by (rule repr_frame) (metis nl fr)
    have hr: "repr h' (Some b) r = repr h (Some b) r"
      by (rule repr_frame) (metis nr fr)
    from Node.prems ab have n: "n = mk_node par l c k v r" by simp
    have hb: "h' b = Some (mk_node par l c k w r)" using assms(1) ab n by (simp add: mk_node_def)
    show ?thesis using eq hl hr hb Node.prems(1) by simp
  next
    case lt
    with Node.prems have inl: "a \<in> set (addrs l)" using find_node_in_addrs[of cmp x l a] by simp
    with Node.prems have ne: "b \<noteq> a" "a \<notin> set (addrs r)" by auto
    have hl: "repr h' (Some b) (update_val cmp x w l)"
      using Node.prems lt by (intro Node.IH(1)) auto
    have hr: "repr h' (Some b) r = repr h (Some b) r"
      by (rule repr_frame) (metis ne fr)
    have hb: "h' b = h b" using fr ne by simp
    show ?thesis using lt hl hr hb Node.prems(1) by (simp add: mk_node_def)
  next
    case gt
    with Node.prems have inr: "a \<in> set (addrs r)" using find_node_in_addrs[of cmp x r a] by simp
    with Node.prems have ne: "b \<noteq> a" "a \<notin> set (addrs l)" by auto
    have hr: "repr h' (Some b) (update_val cmp x w r)"
      using Node.prems gt by (intro Node.IH(2)) auto
    have hl: "repr h' (Some b) l = repr h (Some b) l"
      by (rule repr_frame) (metis ne fr)
    have hb: "h' b = h b" using fr ne by simp
    show ?thesis using gt hl hr hb Node.prems(1) by (simp add: mk_node_def)
  qed
qed

lemma repr_update_val:
  "repr h par t \<Longrightarrow> distinct (addrs t) \<Longrightarrow> ptr (find_node cmp x t) = Some a \<Longrightarrow> h a = Some n \<Longrightarrow>
   repr (h(a \<mapsto> n\<lparr>val := w\<rparr>)) par (update_val cmp x w t)"
  by (rule repr_update_val_gen[where h = h and n = n and a = a]) auto

lemma set_val_Some: "nodes m a = Some n \<Longrightarrow> set_val (Some a) w m = Some (m\<lparr>nodes := (nodes m)(a \<mapsto> n\<lparr>val := w\<rparr>)\<rparr>)"
  by (simp add: set_val_def store_Some)

lemma insert_existing:
  assumes R: "repr_map m t" and kc: "key_compare (config m) = Some cmp"
    and f: "ptr (find_node cmp x t) = Some a"
    and sv: "stored_value (config m) v = Some w"
  shows "\<exists>m'. ordered_map_insert (Some m) (Some x) (Some v) = Some (ORDERED_MAP_SUCCESS, Some m') \<and>
      repr_map m' (update_val cmp x w t) \<and> msize m' = msize m \<and> config m' = config m \<and>
      next_addr m' = next_addr m \<and> avail m' = avail m"
proof -
  from R have r: "repr (nodes m) None t" and rt: "root m = ptr t" and d: "distinct (addrs t)"
    by (auto simp: repr_map_def)
  have s: "tree_search m (ptr t) x cmp = Some (Some a)"
    using tree_search_find[OF r, of x cmp] f by simp
  obtain n where n: "nodes m a = Some n" using find_node_allocated[OF r f] by blast
  have new: "repr ((nodes m)(a \<mapsto> n\<lparr>val := w\<rparr>)) None (update_val cmp x w t)"
    by (rule repr_update_val[OF r d f n])
  show ?thesis
    using sv new d
    by (auto simp: ordered_map_insert_def kc s n set_val_Some stored_value_def repr_map_def rt
        split: option.splits if_splits)
qed

lemma insert_existing_oom:
  assumes R: "repr_map m t" and kc: "key_compare (config m) = Some cmp"
    and f: "ptr (find_node cmp x t) = Some a"
    and sv: "stored_value (config m) v = None"
  shows "\<exists>m'. ordered_map_insert (Some m) (Some x) (Some v) = Some (ORDERED_MAP_ERROR_OUT_OF_MEMORY, Some m')"
proof -
  from R have r: "repr (nodes m) None t" and rt: "root m = ptr t" and d: "distinct (addrs t)"
    by (auto simp: repr_map_def)
  have s: "tree_search m (ptr t) x cmp = Some (Some a)"
    using tree_search_find[OF r, of x cmp] f by simp
  obtain n where n: "nodes m a = Some n" using find_node_allocated[OF r f] by blast
  show ?thesis
    using sv
    by (auto simp: ordered_map_insert_def kc s n rt stored_value_def split: option.splits if_splits)
qed

lemma wf_map_update_val:
  assumes "repr_map m' (update_val cmp x w t)" "list_all (\<lambda>a. a < next_addr m) (addrs t)" "root_black t"
    "key_compare (config m) = Some cmp" "sorted_wrt (\<lambda>x y. cmp x y < 0) (keys_of t)"
    "config m' = config m" "next_addr m' = next_addr m"
  shows "wf_map m'"
  unfolding wf_map_iff using assms
  by (intro exI[of _ "update_val cmp x w t"] exI[of _ cmp]) (simp add: root_black_def)


section \<open>Facts about the example and the integer policy\<close>

lemma comparator_ok_int_compare: "comparator_ok int_compare"
  by (auto simp: comparator_ok_def int_compare_def split: if_splits)

lemma policy_ok_int_config: "policy_ok int_config"
  by (simp add: policy_ok_def int_config_def comparator_ok_int_compare stored_key_def)
     (simp add: int_compare_def)

lemma wf_example_map: "wf_map example_map"
  by code_simp

lemma bindings_example_map: "bindings example_map = Some [(1, 10), (2, 20), (3, 30)]"
  by code_simp

lemma config_example_map: "config example_map = int_config" "key_compare (config example_map) = Some int_compare"
  by (simp_all add: example_map_def int_config_def)

lemma touched_simps [simp]: "nodes (touched m) = nodes m" "root (touched m) = root m"
  "msize (touched m) = msize m" "config (touched m) = config m"
  "next_addr (touched m) = next_addr m" "trace (touched m) = trace m"
  "avail (touched m) = avail m" "stats_enabled (touched m) = stats_enabled m"
  by (simp_all add: touched_def)

lemma wf_map_touched [simp]: "wf_map (touched m) = wf_map m"
  by (rule wf_map_cong) simp_all

lemma bindings_touched [simp]: "bindings (touched m) = bindings m"
  by (rule bindings_cong) simp_all

lemma wf_map_get:
  assumes "wf_map m" "policy_ok (config m)" "key_compare (config m) = Some cmp" "bindings m = Some bs"
  shows "ordered_map_get (Some m) (Some x) = Some (lookup cmp x bs, Some (touched m))"
proof -
  from assms(1) obtain t cmp' where t: "repr_map m t" "key_compare (config m) = Some cmp'"
      "sorted_wrt (\<lambda>x y. cmp' x y < 0) (keys_of t)" "bindings m = Some (bindings_of t)"
    by (rule wf_mapE)
  with assms have [simp]: "cmp' = cmp" "bindings_of t = bs" by auto
  have ok: "comparator_ok cmp" using policy_okD(1)[OF assms(2,3)] .
  show ?thesis
    using get_spec[OF t(1) assms(3) ok, of x] t(3) by (simp add: touched_def)
qed

lemma wf_map_contains:
  assumes "wf_map m" "policy_ok (config m)" "key_compare (config m) = Some cmp" "bindings m = Some bs"
  shows "ordered_map_contains (Some m) (Some x) = Some (lookup cmp x bs \<noteq> None, Some (touched m))"
proof -
  from assms(1) obtain t cmp' where t: "repr_map m t" "key_compare (config m) = Some cmp'"
      "sorted_wrt (\<lambda>x y. cmp' x y < 0) (keys_of t)" "bindings m = Some (bindings_of t)"
    by (rule wf_mapE)
  with assms have [simp]: "cmp' = cmp" "bindings_of t = bs" by auto
  have ok: "comparator_ok cmp" using policy_okD(1)[OF assms(2,3)] .
  show ?thesis
    using contains_spec[OF t(1) assms(3) ok, of x] t(3) by (simp add: touched_def)
qed


lemma no_match_left: "comparator_ok cmp \<Longrightarrow> \<not> cmp x k < 0 \<Longrightarrow> cmp y k < 0 \<Longrightarrow> cmp x y \<noteq> 0"
  using cmp_le_lt_trans[of cmp x y k] by auto

lemma no_match_right: "comparator_ok cmp \<Longrightarrow> cmp x k \<le> 0 \<Longrightarrow> cmp k y < 0 \<Longrightarrow> cmp x y \<noteq> 0"
  using cmp_le_lt_trans[of cmp x k y] by auto

lemma set_binding_append [simp]: "set_binding cmp x w (xs @ ys) = set_binding cmp x w xs @ set_binding cmp x w ys"
  by (simp add: set_binding_def)

lemma set_binding_id:
  assumes "\<And>k v. (k, v) \<in> set xs \<Longrightarrow> cmp x k \<noteq> 0"
  shows "set_binding cmp x w xs = xs"
  unfolding set_binding_def
proof (rule map_idI)
  fix p assume pin: "p \<in> set xs"
  obtain k v where p: "p = (k, v)" by (cases p)
  from assms[of k v] pin p show "(case p of (k, v) \<Rightarrow> if cmp x k = 0 then (k, w) else (k, v)) = p"
    by simp
qed

lemma in_bindings_keys: "(k, v) \<in> set (bindings_of t) \<Longrightarrow> k \<in> set (keys_of t)"
  by (force simp: keys_of_bindings)

lemma bindings_update_val:
  assumes ok: "comparator_ok cmp"
  shows "sorted_wrt (\<lambda>x y. cmp x y < 0) (keys_of t) \<Longrightarrow>
    bindings_of (update_val cmp x w t) = set_binding cmp x w (bindings_of t)"
proof (induction t)
  case Leaf
  show ?case by (simp add: set_binding_def)
next
  case (Node l a c k v r)
  from Node.prems have sl: "sorted_wrt (\<lambda>x y. cmp x y < 0) (keys_of l)"
    and sr: "sorted_wrt (\<lambda>x y. cmp x y < 0) (keys_of r)"
    and lk: "\<And>y. y \<in> set (keys_of l) \<Longrightarrow> cmp y k < 0"
    and kr: "\<And>y. y \<in> set (keys_of r) \<Longrightarrow> cmp k y < 0"
    by (auto simp: sorted_wrt_append)
  have idl: "set_binding cmp x w (bindings_of l) = bindings_of l" if "\<not> cmp x k < 0"
    by (rule set_binding_id) (use that lk no_match_left[OF ok] in_bindings_keys in metis)
  have idr: "set_binding cmp x w (bindings_of r) = bindings_of r" if "cmp x k \<le> 0"
    by (rule set_binding_id) (use that kr no_match_right[OF ok] in_bindings_keys in metis)
  consider (eq) "cmp x k = 0" | (lt) "cmp x k \<noteq> 0" "cmp x k < 0" | (gt) "cmp x k \<noteq> 0" "\<not> cmp x k < 0"
    by blast
  then show ?case
  proof cases
    case eq
    then show ?thesis using idl idr by (simp add: set_binding_def)
  next
    case lt
    then show ?thesis using idr Node.IH(1)[OF sl] by (simp add: set_binding_def)
  next
    case gt
    then show ?thesis using idl Node.IH(2)[OF sr] by (simp add: set_binding_def)
  qed
qed

lemma lookup_Cons: "lookup cmp x ((k, v) # bs) = (if cmp x k = 0 then Some v else lookup cmp x bs)"
  by (simp add: lookup_def)

lemma lookup_Nil [simp]: "lookup cmp x [] = None"
  by (simp add: lookup_def)

lemma set_binding_Cons:
  "set_binding cmp x w ((k, v) # bs) = (if cmp x k = 0 then (k, w) else (k, v)) # set_binding cmp x w bs"
  by (simp add: set_binding_def)

lemma lookup_set_binding: "lookup cmp x bs \<noteq> None \<Longrightarrow> lookup cmp x (set_binding cmp x w bs) = Some w"
proof (induction bs)
  case Nil
  then show ?case by simp
next
  case (Cons p bs)
  obtain k v where p: "p = (k, v)" by (cases p)
  show ?case
  proof (cases "cmp x k = 0")
    case True
    then show ?thesis by (simp add: p lookup_Cons set_binding_Cons)
  next
    case False
    with Cons show ?thesis by (simp add: p lookup_Cons set_binding_Cons)
  qed
qed

lemma map_fst_set_binding [simp]: "map fst (set_binding cmp x w bs) = map fst bs"
  by (induction bs) (auto simp: set_binding_def)

lemma wf_map_overwrite:
  assumes "wf_map m" "policy_ok (config m)" "key_compare (config m) = Some cmp" "bindings m = Some bs"
    and present: "lookup cmp k bs \<noteq> None" and sv: "stored_value (config m) v = Some w"
  shows "\<exists>m'. ordered_map_insert (Some m) (Some k) (Some v) = Some (ORDERED_MAP_SUCCESS, Some m') \<and>
      wf_map m' \<and> bindings m' = Some (set_binding cmp k w bs) \<and> msize m' = msize m \<and>
      config m' = config m"
proof -
  from assms(1) obtain t cmp' where t: "repr_map m t" "list_all (\<lambda>a. a < next_addr m) (addrs t)"
      "root_black t" "key_compare (config m) = Some cmp'"
      "sorted_wrt (\<lambda>x y. cmp' x y < 0) (keys_of t)" "bindings m = Some (bindings_of t)"
    by (rule wf_mapE)
  with assms have [simp]: "cmp' = cmp" "bindings_of t = bs" by auto
  have ok: "comparator_ok cmp" using policy_okD(1)[OF assms(2,3)] .
  from t(1) have r: "repr (nodes m) None t" by (simp add: repr_map_def)
  have "root_val (find_node cmp k t) \<noteq> None"
    using find_node_lookup[OF ok, of t k] t(5) present by simp
  then obtain a where a: "ptr (find_node cmp k t) = Some a"
    using find_node_ptr_val(2)[OF r, of cmp k] by (cases "ptr (find_node cmp k t)") auto
  from insert_existing[OF t(1) assms(3) a sv] obtain m' where
    m': "ordered_map_insert (Some m) (Some k) (Some v) = Some (ORDERED_MAP_SUCCESS, Some m')"
      "repr_map m' (update_val cmp k w t)" "msize m' = msize m" "config m' = config m"
      "next_addr m' = next_addr m"
    by blast
  have wf: "wf_map m'"
    using wf_map_update_val[OF m'(2) t(2,3) assms(3) _ m'(4,5)] t(5) by simp
  have b: "bindings m' = Some (set_binding cmp k w bs)"
    using repr_map_bindings[OF m'(2)] bindings_update_val[OF ok, of t k w] t(5) by simp
  from m' wf b show ?thesis by blast
qed


section \<open>Traversal\<close>

lemma ctx_before_append: "ctx_before (fs @ gs) = ctx_before gs @ ctx_before fs"
proof (induction fs)
  case Nil
  show ?case by simp
next
  case (Cons f fs)
  then show ?case by (cases f rule: frame_cases) auto
qed

lemma ctx_after_append: "ctx_after (fs @ gs) = ctx_after fs @ ctx_after gs"
proof (induction fs)
  case Nil
  show ?case by simp
next
  case (Cons f fs)
  then show ?case by (cases f rule: frame_cases) auto
qed

text \<open>Every element of the in-order sequence sits at a position of the tree.\<close>

lemma inorder_split_pos:
  "inorder t = pre @ (a, k, v) # post \<Longrightarrow>
   \<exists>fs l c r. t = plug fs (Node l a c k v r) \<and> pre = ctx_before fs @ inorder l \<and>
       post = inorder r @ ctx_after fs"
proof (induction t arbitrary: pre post)
  case Leaf
  then show ?case by simp
next
  case (Node L b cb kb vb R)
  from Node.prems have eq: "inorder L @ (b, kb, vb) # inorder R = pre @ (a, k, v) # post" by simp
  then consider
      (left) us where "inorder L = pre @ (a, k, v) # us" "post = us @ (b, kb, vb) # inorder R"
    | (here) "pre = inorder L" "(a, k, v) = (b, kb, vb)" "post = inorder R"
    | (right) us where "pre = inorder L @ (b, kb, vb) # us" "inorder R = us @ (a, k, v) # post"
    by (auto simp: append_eq_append_conv2 append_eq_Cons_conv Cons_eq_append_conv)
  then show ?case
  proof cases
    case left
    from Node.IH(1)[OF left(1)] obtain fs l c r where
      p: "L = plug fs (Node l a c k v r)" "pre = ctx_before fs @ inorder l" "us = inorder r @ ctx_after fs"
      by blast
    have "Node L b cb kb vb R = plug (fs @ [Frame Lft b cb kb vb R]) (Node l a c k v r)"
      by (simp add: plug_append p(1))
    moreover have "pre = ctx_before (fs @ [Frame Lft b cb kb vb R]) @ inorder l"
      by (simp add: ctx_before_append p(2))
    moreover have "post = inorder r @ ctx_after (fs @ [Frame Lft b cb kb vb R])"
      by (simp add: ctx_after_append p(3) left(2))
    ultimately show ?thesis by blast
  next
    case here
    then have "Node L b cb kb vb R = plug [] (Node L a cb k v R)" by simp
    with here show ?thesis by (metis append_Nil append_Nil2 ctx_after.simps(1) ctx_before.simps(1))
  next
    case right
    from Node.IH(2)[OF right(2)] obtain fs l c r where
      p: "R = plug fs (Node l a c k v r)" "us = ctx_before fs @ inorder l" "post = inorder r @ ctx_after fs"
      by blast
    have "Node L b cb kb vb R = plug (fs @ [Frame Rgt b cb kb vb L]) (Node l a c k v r)"
      by (simp add: plug_append p(1))
    moreover have "pre = ctx_before (fs @ [Frame Rgt b cb kb vb L]) @ inorder l"
      by (simp add: ctx_before_append p(2) right(1))
    moreover have "post = inorder r @ ctx_after (fs @ [Frame Rgt b cb kb vb L])"
      by (simp add: ctx_after_append p(3))
    ultimately show ?thesis by blast
  qed
qed

lemma tree_minimum_spec:
  "repr (nodes m) par t \<Longrightarrow> t \<noteq> Leaf \<Longrightarrow> tree_minimum m (ptr t) = Some (first_addr (inorder t))"
proof (induction t arbitrary: par)
  case Leaf
  then show ?case by simp
next
  case (Node l a c k v r)
  from Node.prems have n: "nodes m a = Some (mk_node par l c k v r)" and rl: "repr (nodes m) (Some a) l"
    by auto
  show ?case
  proof (cases l)
    case Leaf
    then show ?thesis by (subst tree_minimum.simps) (simp add: n mk_node_def)
  next
    case (Node l1 a1 c1 k1 v1 r1)
    then have "tree_minimum m (ptr l) = Some (first_addr (inorder l))"
      using Node.IH(1)[OF rl] by simp
    moreover have "first_addr (inorder l @ (a, k, v) # inorder r) = first_addr (inorder l)"
      using Node by (cases "inorder l") auto
    ultimately show ?thesis using Node
      by (subst tree_minimum.simps) (simp add: n mk_node_def)
  qed
qed

lemma last_addr_snoc [simp]: "last_addr (xs @ [x]) = Some (fst x)"
  by (simp add: last_addr_def)

lemma last_addr_Nil [simp]: "last_addr [] = None"
  by (simp add: last_addr_def)

lemma last_addr_append: "ys \<noteq> [] \<Longrightarrow> last_addr (xs @ ys) = last_addr ys"
  by (cases "rev ys") (auto simp: last_addr_def)

lemma first_addr_append: "xs \<noteq> [] \<Longrightarrow> first_addr (xs @ ys) = first_addr xs"
  by (cases xs) auto

lemma inorder_eq_Nil [simp]: "(inorder t = []) = (t = Leaf)"
  by (cases t) auto

lemma tree_maximum_spec:
  "repr (nodes m) par t \<Longrightarrow> t \<noteq> Leaf \<Longrightarrow> tree_maximum m (ptr t) = Some (last_addr (inorder t))"
proof (induction t arbitrary: par)
  case Leaf
  then show ?case by simp
next
  case (Node l a c k v r)
  from Node.prems have n: "nodes m a = Some (mk_node par l c k v r)" and rr: "repr (nodes m) (Some a) r"
    by auto
  show ?case
  proof (cases r)
    case Leaf
    then show ?thesis
      using last_addr_snoc[of "inorder l" "(a, k, v)"]
      by (subst tree_maximum.simps) (simp add: n mk_node_def)
  next
    case (Node l1 a1 c1 k1 v1 r1)
    then have "tree_maximum m (ptr r) = Some (last_addr (inorder r))"
      using Node.IH(2)[OF rr] by simp
    moreover have "last_addr (inorder l @ (a, k, v) # inorder r) = last_addr (inorder r)"
      using Node last_addr_append[of "inorder r" "inorder l @ [(a, k, v)]"] by simp
    ultimately show ?thesis using Node
      by (subst tree_maximum.simps) (simp add: n mk_node_def)
  qed
qed

lemma plug_node: "repr h None (plug fs (Node l a c k v r)) \<Longrightarrow> h a = Some (mk_node (cpar fs) l c k v r)"
  using repr_plug_sub[of h fs "Node l a c k v r"] by simp

lemma sibling_ptr_neq:
  assumes "distinct (addrs (plug (Frame d p c k v s # fs) t))" "ptr t = Some a"
  shows "ptr s \<noteq> Some a"
proof
  assume "ptr s = Some a"
  then have "a \<in> set (addrs s)" by (rule ptr_in_addrs)
  moreover have "a \<in> set (addrs t)" using assms(2) by (rule ptr_in_addrs)
  ultimately show False
    using distinct_plug_fill[OF assms(1)] by (cases d) auto
qed

lemma successor_loop_spec:
  "repr (nodes m) None (plug fs t) \<Longrightarrow> distinct (addrs (plug fs t)) \<Longrightarrow> ptr t = Some a \<Longrightarrow>
   successor_loop m (Some a) (cpar fs) = Some (first_addr (ctx_after fs))"
proof (induction fs arbitrary: t a)
  case Nil
  show ?case by (subst successor_loop.simps) simp
next
  case (Cons f fs)
  show ?case
  proof (cases f rule: frame_cases)
    case (Lft p c k v s)
    have n: "nodes m p = Some (mk_node (cpar fs) t c k v s)"
      using plug_node[of "nodes m" fs t p c k v s] Cons.prems(1) Lft by simp
    have "ptr s \<noteq> Some a" using sibling_ptr_neq[of Lft p c k v s fs t a] Cons.prems Lft by simp
    then show ?thesis
      by (subst successor_loop.simps) (auto simp: Lft n mk_node_def)
  next
    case (Rgt p c k v s)
    have n: "nodes m p = Some (mk_node (cpar fs) s c k v t)"
      using plug_node[of "nodes m" fs s p c k v t] Cons.prems(1) Rgt by simp
    have "successor_loop m (Some p) (cpar fs) = Some (first_addr (ctx_after fs))"
      using Cons.IH[of "Node s p c k v t" p] Cons.prems Rgt by simp
    then show ?thesis
      by (subst successor_loop.simps) (simp add: Rgt n mk_node_def Cons.prems(3))
  qed
qed

lemma predecessor_loop_spec:
  "repr (nodes m) None (plug fs t) \<Longrightarrow> distinct (addrs (plug fs t)) \<Longrightarrow> ptr t = Some a \<Longrightarrow>
   predecessor_loop m (Some a) (cpar fs) = Some (last_addr (ctx_before fs))"
proof (induction fs arbitrary: t a)
  case Nil
  show ?case by (subst predecessor_loop.simps) simp
next
  case (Cons f fs)
  show ?case
  proof (cases f rule: frame_cases)
    case (Rgt p c k v s)
    have n: "nodes m p = Some (mk_node (cpar fs) s c k v t)"
      using plug_node[of "nodes m" fs s p c k v t] Cons.prems(1) Rgt by simp
    have "ptr s \<noteq> Some a" using sibling_ptr_neq[of Rgt p c k v s fs t a] Cons.prems Rgt by simp
    moreover have "last_addr (ctx_before fs @ inorder s @ [(p, k, v)]) = Some p"
      using last_addr_snoc[of "ctx_before fs @ inorder s" "(p, k, v)"] by simp
    ultimately show ?thesis
      by (subst predecessor_loop.simps) (auto simp: Rgt n mk_node_def)
  next
    case (Lft p c k v s)
    have n: "nodes m p = Some (mk_node (cpar fs) t c k v s)"
      using plug_node[of "nodes m" fs t p c k v s] Cons.prems(1) Lft by simp
    have "predecessor_loop m (Some p) (cpar fs) = Some (last_addr (ctx_before fs))"
      using Cons.IH[of "Node t p c k v s" p] Cons.prems Lft by simp
    then show ?thesis
      by (subst predecessor_loop.simps) (simp add: Lft n mk_node_def Cons.prems(3))
  qed
qed

lemma tree_successor_spec:
  assumes "repr (nodes m) None (plug fs (Node l a c k v r))" "distinct (addrs (plug fs (Node l a c k v r)))"
  shows "tree_successor m (Some a) = Some (first_addr (inorder r @ ctx_after fs))"
proof -
  have n: "nodes m a = Some (mk_node (cpar fs) l c k v r)" using plug_node[OF assms(1)] .
  have rr: "repr (nodes m) (Some a) r" using repr_plug_sub[OF assms(1)] by simp
  show ?thesis
  proof (cases r)
    case Leaf
    then show ?thesis
      using successor_loop_spec[OF assms, of a]
      by (simp add: tree_successor_def n mk_node_def)
  next
    case (Node l1 a1 c1 k1 v1 r1)
    then show ?thesis
      using tree_minimum_spec[OF rr] first_addr_append[of "inorder r" "ctx_after fs"]
      by (simp add: tree_successor_def n mk_node_def)
  qed
qed

lemma tree_predecessor_spec:
  assumes "repr (nodes m) None (plug fs (Node l a c k v r))" "distinct (addrs (plug fs (Node l a c k v r)))"
  shows "tree_predecessor m (Some a) = Some (last_addr (ctx_before fs @ inorder l))"
proof -
  have n: "nodes m a = Some (mk_node (cpar fs) l c k v r)" using plug_node[OF assms(1)] .
  have rl: "repr (nodes m) (Some a) l" using repr_plug_sub[OF assms(1)] by simp
  show ?thesis
  proof (cases l)
    case Leaf
    then show ?thesis
      using predecessor_loop_spec[OF assms, of a]
      by (simp add: tree_predecessor_def n mk_node_def)
  next
    case (Node l1 a1 c1 k1 v1 r1)
    then show ?thesis
      using tree_maximum_spec[OF rl] last_addr_append[of "inorder l" "ctx_before fs"]
      by (simp add: tree_predecessor_def n mk_node_def)
  qed
qed

lemma iterate_forward:
  assumes R: "repr (nodes m) None t" and d: "distinct (addrs t)"
  shows "inorder t = pre @ ys \<Longrightarrow>
    iterate m (Some \<lparr>current = first_addr ys, direction = ORDERED_MAP_ITER_FORWARD, valid = True\<rparr>) =
      Some (map (cursor_view \<circ> snd) ys)"
proof (induction ys arbitrary: pre)
  case Nil
  show ?case by (subst iterate.simps) (simp add: ordered_map_iterator_has_next_def)
next
  case (Cons y ys)
  obtain a k v where y: "y = (a, k, v)" by (cases y)
  from inorder_split_pos[of t pre a k v ys] Cons.prems y obtain fs l c r where
    p: "t = plug fs (Node l a c k v r)" "pre = ctx_before fs @ inorder l" "ys = inorder r @ ctx_after fs"
    by blast
  have n: "nodes m a = Some (mk_node (cpar fs) l c k v r)" using plug_node[of "nodes m" fs] R p(1) by simp
  have s: "tree_successor m (Some a) = Some (first_addr ys)"
    using tree_successor_spec[of m fs l a c k v r] R d p by simp
  have IH: "iterate m (Some \<lparr>current = first_addr ys, direction = ORDERED_MAP_ITER_FORWARD, valid = True\<rparr>) =
      Some (map (cursor_view \<circ> snd) ys)"
    using Cons.IH[of "pre @ [y]"] Cons.prems by simp
  show ?case
    by (subst iterate.simps)
       (simp add: y ordered_map_iterator_has_next_def ordered_map_iterator_key_def
          ordered_map_iterator_value_def ordered_map_iterator_next_def n s IH mk_node_def cursor_view_def)
qed

lemma iterate_backward:
  assumes R: "repr (nodes m) None t" and d: "distinct (addrs t)"
  shows "inorder t = ys @ post \<Longrightarrow>
    iterate m (Some \<lparr>current = last_addr ys, direction = ORDERED_MAP_ITER_BACKWARD, valid = True\<rparr>) =
      Some (map (cursor_view \<circ> snd) (rev ys))"
proof (induction ys arbitrary: post rule: rev_induct)
  case Nil
  show ?case by (subst iterate.simps) (simp add: ordered_map_iterator_has_next_def)
next
  case (snoc y ys)
  obtain a k v where y: "y = (a, k, v)" by (cases y)
  from inorder_split_pos[of t ys a k v post] snoc.prems y obtain fs l c r where
    p: "t = plug fs (Node l a c k v r)" "ys = ctx_before fs @ inorder l" "post = inorder r @ ctx_after fs"
    by auto
  have n: "nodes m a = Some (mk_node (cpar fs) l c k v r)" using plug_node[of "nodes m" fs] R p(1) by simp
  have s: "tree_predecessor m (Some a) = Some (last_addr ys)"
    using tree_predecessor_spec[of m fs l a c k v r] R d p by simp
  have IH: "iterate m (Some \<lparr>current = last_addr ys, direction = ORDERED_MAP_ITER_BACKWARD, valid = True\<rparr>) =
      Some (map (cursor_view \<circ> snd) (rev ys))"
    using snoc.IH[of "y # post"] snoc.prems by simp
  show ?case
    by (subst iterate.simps)
       (simp add: y ordered_map_iterator_has_next_def ordered_map_iterator_key_def
          ordered_map_iterator_value_def ordered_map_iterator_next_def n s IH mk_node_def cursor_view_def)
qed

lemma traverse_forward:
  assumes "repr_map m t" "avail m > 0"
  shows "traverse (Some m) ORDERED_MAP_ITER_FORWARD = Some (map cursor_view (bindings_of t))"
proof -
  let ?m = "m\<lparr>avail := avail m - 1\<rparr>"
  from assms(1) have R: "repr (nodes ?m) None t" and d: "distinct (addrs t)" and rt: "root m = ptr t"
    by (auto simp: repr_map_def)
  have it: "iterate ?m (Some \<lparr>current = first_addr (inorder t), direction = ORDERED_MAP_ITER_FORWARD, valid = True\<rparr>) =
      Some (map (cursor_view \<circ> snd) (inorder t))"
    using iterate_forward[OF R d, of "[]" "inorder t"] by simp
  show ?thesis
  proof (cases t)
    case Leaf
    with it show ?thesis using assms(2) rt
      by (simp add: traverse_def ordered_map_iterator_create_def bindings_of_def)
  next
    case (Node l a c k v r)
    then have "tree_minimum ?m (ptr t) = Some (first_addr (inorder t))"
      using tree_minimum_spec[OF R] by simp
    with it show ?thesis using assms(2) rt Node
      by (simp add: traverse_def ordered_map_iterator_create_def bindings_of_def)
  qed
qed

lemma traverse_backward:
  assumes "repr_map m t" "avail m > 0"
  shows "traverse (Some m) ORDERED_MAP_ITER_BACKWARD = Some (rev (map cursor_view (bindings_of t)))"
proof -
  let ?m = "m\<lparr>avail := avail m - 1\<rparr>"
  from assms(1) have R: "repr (nodes ?m) None t" and d: "distinct (addrs t)" and rt: "root m = ptr t"
    by (auto simp: repr_map_def)
  have it: "iterate ?m (Some \<lparr>current = last_addr (inorder t), direction = ORDERED_MAP_ITER_BACKWARD, valid = True\<rparr>) =
      Some (map (cursor_view \<circ> snd) (rev (inorder t)))"
    using iterate_backward[OF R d, of "inorder t" "[]"] by simp
  show ?thesis
  proof (cases t)
    case Leaf
    with it show ?thesis using assms(2) rt
      by (simp add: traverse_def ordered_map_iterator_create_def bindings_of_def)
  next
    case (Node l a c k v r)
    then have "tree_maximum ?m (ptr t) = Some (last_addr (inorder t))"
      using tree_maximum_spec[OF R] by simp
    with it show ?thesis using assms(2) rt Node
      by (simp add: traverse_def ordered_map_iterator_create_def bindings_of_def rev_map)
  qed
qed


section \<open>Rotations on the node memory\<close>

lemma left_rotate_heap:
  assumes nx: "nodes m x = Some nx" and xr: "right nx = Some y" and ny: "nodes m y = Some ny"
    and xy: "x \<noteq> y"
    and b: "\<And>b. left ny = Some b \<Longrightarrow> b \<noteq> x \<and> b \<noteq> y \<and> nodes m b \<noteq> None"
    and p: "\<And>p. parent nx = Some p \<Longrightarrow> p \<noteq> x \<and> p \<noteq> y \<and> left ny \<noteq> Some p \<and> nodes m p \<noteq> None"
  shows "\<exists>m'. left_rotate m (Some x) = Some m' \<and> m' = m\<lparr>root := root m', nodes := nodes m'\<rparr> \<and>
      root m' = (if parent nx = None then Some y else root m) \<and>
      nodes m' = (\<lambda>q. if q = x then Some (nx\<lparr>right := left ny, parent := Some y\<rparr>)
                       else if q = y then Some (ny\<lparr>parent := parent nx, left := Some x\<rparr>)
                       else if left ny = Some q then map_option (\<lambda>n. n\<lparr>parent := Some x\<rparr>) (nodes m q)
                       else if parent nx = Some q
                         then map_option (\<lambda>n. if left n = Some x then n\<lparr>left := Some y\<rparr> else n\<lparr>right := Some y\<rparr>) (nodes m q)
                       else nodes m q)"
proof (cases "left ny")
  case None
  show ?thesis
  proof (cases "parent nx")
    case pn: None
    show ?thesis
      using nx xr ny xy None pn
      by (auto simp: left_rotate_def set_right_def set_left_def set_parent_def store_def fun_eq_iff)
  next
    case (Some pp)
    with p[of pp] obtain np where np: "nodes m pp = Some np" "pp \<noteq> x" "pp \<noteq> y" by auto
    show ?thesis
      using nx xr ny xy None Some np
      by (auto simp: left_rotate_def set_right_def set_left_def set_parent_def store_def fun_eq_iff)
  qed
next
  case (Some bb)
  with b[of bb] obtain nb where nb: "nodes m bb = Some nb" "bb \<noteq> x" "bb \<noteq> y" by auto
  show ?thesis
  proof (cases "parent nx")
    case pn: None
    show ?thesis
      using nx xr ny xy Some pn nb
      by (auto simp: left_rotate_def set_right_def set_left_def set_parent_def store_def fun_eq_iff)
  next
    case ps: (Some pp)
    with p[of pp] Some obtain np where np: "nodes m pp = Some np" "pp \<noteq> x" "pp \<noteq> y" "pp \<noteq> bb" by auto
    show ?thesis
      using nx xr ny xy Some ps nb np
      by (auto simp: left_rotate_def set_right_def set_left_def set_parent_def store_def fun_eq_iff)
  qed
qed

lemma right_rotate_heap:
  assumes ny: "nodes m y = Some ny" and yl: "left ny = Some x" and nx: "nodes m x = Some nx"
    and xy: "x \<noteq> y"
    and b: "\<And>b. right nx = Some b \<Longrightarrow> b \<noteq> x \<and> b \<noteq> y \<and> nodes m b \<noteq> None"
    and p: "\<And>p. parent ny = Some p \<Longrightarrow> p \<noteq> x \<and> p \<noteq> y \<and> right nx \<noteq> Some p \<and> nodes m p \<noteq> None"
  shows "\<exists>m'. right_rotate m (Some y) = Some m' \<and> m' = m\<lparr>root := root m', nodes := nodes m'\<rparr> \<and>
      root m' = (if parent ny = None then Some x else root m) \<and>
      nodes m' = (\<lambda>q. if q = y then Some (ny\<lparr>left := right nx, parent := Some x\<rparr>)
                       else if q = x then Some (nx\<lparr>parent := parent ny, right := Some y\<rparr>)
                       else if right nx = Some q then map_option (\<lambda>n. n\<lparr>parent := Some y\<rparr>) (nodes m q)
                       else if parent ny = Some q
                         then map_option (\<lambda>n. if right n = Some y then n\<lparr>right := Some x\<rparr> else n\<lparr>left := Some x\<rparr>) (nodes m q)
                       else nodes m q)"
proof (cases "right nx")
  case None
  show ?thesis
  proof (cases "parent ny")
    case pn: None
    show ?thesis
      using nx yl ny xy None pn
      by (auto simp: right_rotate_def set_right_def set_left_def set_parent_def store_def fun_eq_iff)
  next
    case (Some pp)
    with p[of pp] obtain np where np: "nodes m pp = Some np" "pp \<noteq> x" "pp \<noteq> y" by auto
    show ?thesis
      using nx yl ny xy None Some np
      by (auto simp: right_rotate_def set_right_def set_left_def set_parent_def store_def fun_eq_iff)
  qed
next
  case (Some bb)
  with b[of bb] obtain nb where nb: "nodes m bb = Some nb" "bb \<noteq> x" "bb \<noteq> y" by auto
  show ?thesis
  proof (cases "parent ny")
    case pn: None
    show ?thesis
      using nx yl ny xy Some pn nb
      by (auto simp: right_rotate_def set_right_def set_left_def set_parent_def store_def fun_eq_iff)
  next
    case ps: (Some pp)
    with p[of pp] Some obtain np where np: "nodes m pp = Some np" "pp \<noteq> x" "pp \<noteq> y" "pp \<noteq> bb" by auto
    show ?thesis
      using nx yl ny xy Some ps nb np
      by (auto simp: right_rotate_def set_right_def set_left_def set_parent_def store_def fun_eq_iff)
  qed
qed

section \<open>Rotations on the tree\<close>

lemma repr_reparent:
  assumes "repr h par t" and "distinct (addrs t)"
    and top: "\<And>a n. ptr t = Some a \<Longrightarrow> h a = Some n \<Longrightarrow> h' a = Some (n\<lparr>parent := par'\<rparr>)"
    and rest: "\<And>q. q \<in> set (addrs t) \<Longrightarrow> ptr t \<noteq> Some q \<Longrightarrow> h' q = h q"
  shows "repr h' par' t"
proof (cases t)
  case Leaf
  then show ?thesis by simp
next
  case (Node l a c k v r)
  with assms(1) have n: "h a = Some (mk_node par l c k v r)" and rl: "repr h (Some a) l" and rr: "repr h (Some a) r"
    by auto
  from assms(2) Node have al: "a \<notin> set (addrs l)" and ar: "a \<notin> set (addrs r)" by auto
  have "h' a = Some (mk_node par' l c k v r)" using top[of a] n Node by (simp add: mk_node_def)
  moreover have "repr h' (Some a) l = repr h (Some a) l"
    by (rule repr_frame) (use rest Node al in auto)
  moreover have "repr h' (Some a) r = repr h (Some a) r"
    by (rule repr_frame) (use rest Node ar in auto)
  ultimately show ?thesis using rl rr Node by simp
qed

lemma cpar_in_ctx: "cpar fs = Some p \<Longrightarrow> p \<in> set (ctx_addrs fs)"
  by (cases fs rule: cpar.cases) auto

lemma addrs_plug_perm: "inorder t' = inorder t \<Longrightarrow> addrs (plug fs t') = addrs (plug fs t)"
  by (simp add: addrs_inorder inorder_plug)

lemma repr_map_plug_replace_gen:
  assumes R: "repr_map m (plug fs s)"
    and new: "repr (nodes m') (cpar fs) s'"
    and d': "distinct (addrs (plug fs s'))"
    and ctx: "\<And>q. q \<in> set (ctx_addrs fs) \<Longrightarrow> cpar fs \<noteq> Some q \<Longrightarrow> nodes m' q = nodes m q"
    and top: "\<And>f fs'. fs = f # fs' \<Longrightarrow> repr (nodes m') (cpar fs') (fill f s')"
    and rt: "root m' = (if fs = [] then ptr s' else root m)"
  shows "repr_map m' (plug fs s')"
proof -
  from R have r: "repr (nodes m) None (plug fs s)" and d: "distinct (addrs (plug fs s))"
    and rm: "root m = ptr (plug fs s)" by (auto simp: repr_map_def)
  show ?thesis
  proof (cases fs)
    case Nil
    with new rt d' show ?thesis by (simp add: repr_map_def)
  next
    case (Cons f fs')
    have a: "repr (nodes m) None (plug fs' (fill f s))" using r Cons by simp
    have b: "distinct (addrs (plug fs' (fill f s)))" using d Cons by simp
    have c: "repr (nodes m') (cpar fs') (fill f s')" using top[OF Cons] .
    have e: "ptr (fill f s') = ptr (fill f s)" by (cases f rule: frame_cases) auto
    have df: "distinct (ctx_addrs (f # fs'))" using d Cons distinct_plug_iff[of fs s] by simp
    have g: "nodes m' q = nodes m q" if "q \<in> set (ctx_addrs fs')" for q
    proof (rule ctx)
      show "q \<in> set (ctx_addrs fs)" using that Cons by (cases f rule: frame_cases) auto
      show "cpar fs \<noteq> Some q" using that df Cons by (cases f rule: frame_cases) auto
    qed
    have "repr (nodes m') None (plug fs' (fill f s'))"
      by (rule repr_plug_replace[OF a b c e g])
    moreover have "ptr (plug fs s') = ptr (plug fs s)" using Cons e by (simp add: ptr_plug)
    ultimately show ?thesis using rt rm d' Cons by (simp add: repr_map_def)
  qed
qed

lemma repr_map_plug_replace:
  assumes R: "repr_map m (plug fs s)"
    and new: "repr (nodes m') (cpar fs) s'"
    and io: "inorder s' = inorder s"
    and ctx: "\<And>q. q \<in> set (ctx_addrs fs) \<Longrightarrow> cpar fs \<noteq> Some q \<Longrightarrow> nodes m' q = nodes m q"
    and top: "\<And>f fs'. fs = f # fs' \<Longrightarrow> repr (nodes m') (cpar fs') (fill f s')"
    and rt: "root m' = (if fs = [] then ptr s' else root m)"
  shows "repr_map m' (plug fs s')"
proof -
  from R have "distinct (addrs (plug fs s))" by (simp add: repr_map_def)
  then have "distinct (addrs (plug fs s'))" using addrs_plug_perm[OF io, of fs] by simp
  then show ?thesis using repr_map_plug_replace_gen[OF R new _ ctx top rt] by blast
qed


lemma cpar_None_iff [simp]: "(cpar fs = None) = (fs = [])"
  by (cases fs rule: cpar.cases) auto

lemma ctx_node_allocated:
  assumes "repr h None (plug fs t)" "cpar fs = Some p"
  shows "h p \<noteq> None"
proof (cases fs)
  case Nil
  with assms show ?thesis by simp
next
  case (Cons f fs')
  show ?thesis
  proof (cases f rule: frame_cases)
    case (Lft a c k v s)
    with assms Cons show ?thesis using plug_node[of h fs' t a c k v s] by simp
  next
    case (Rgt a c k v s)
    with assms Cons show ?thesis using plug_node[of h fs' s a c k v t] by simp
  qed
qed

lemma left_rotate_tree:
  assumes R: "repr_map m (plug fs (Node a x cx kx vx (Node b y cy ky vy c)))"
  shows "\<exists>m'. left_rotate m (Some x) = Some m' \<and> m' = m\<lparr>root := root m', nodes := nodes m'\<rparr> \<and>
      repr_map m' (plug fs (Node (Node a x cx kx vx b) y cy ky vy c))"
proof -
  let ?old = "Node a x cx kx vx (Node b y cy ky vy c)"
  let ?new = "Node (Node a x cx kx vx b) y cy ky vy c"
  let ?nx = "mk_node (cpar fs) a cx kx vx (Node b y cy ky vy c)"
  let ?ny = "mk_node (Some x) b cy ky vy c"
  from R have r: "repr (nodes m) None (plug fs ?old)" and d: "distinct (addrs (plug fs ?old))"
    by (auto simp: repr_map_def)
  have sub: "repr (nodes m) (cpar fs) ?old" using repr_plug_sub[OF r] .
  then have nx: "nodes m x = Some ?nx" and ny: "nodes m y = Some ?ny"
    and ra: "repr (nodes m) (Some x) a" and rb: "repr (nodes m) (Some y) b"
    and rc: "repr (nodes m) (Some y) c" by auto
  from d have D: "distinct (addrs a @ x # addrs b @ y # addrs c)" "distinct (ctx_addrs fs)"
      "set (addrs a @ x # addrs b @ y # addrs c) \<inter> set (ctx_addrs fs) = {}"
    by (auto simp: distinct_plug_iff)
  have pb: "ptr b = Some q \<Longrightarrow> q \<in> set (addrs b)" for q by (rule ptr_in_addrs)
  have pc: "cpar fs = Some q \<Longrightarrow> q \<in> set (ctx_addrs fs)" for q by (rule cpar_in_ctx)
  have balloc: "ptr b = Some q \<Longrightarrow> nodes m q \<noteq> None" for q
    using rb by (cases b) auto
  have "\<exists>m'. left_rotate m (Some x) = Some m' \<and> m' = m\<lparr>root := root m', nodes := nodes m'\<rparr> \<and>
      root m' = (if parent ?nx = None then Some y else root m) \<and>
      nodes m' = (\<lambda>q. if q = x then Some (?nx\<lparr>right := left ?ny, parent := Some y\<rparr>)
                       else if q = y then Some (?ny\<lparr>parent := parent ?nx, left := Some x\<rparr>)
                       else if left ?ny = Some q then map_option (\<lambda>n. n\<lparr>parent := Some x\<rparr>) (nodes m q)
                       else if parent ?nx = Some q
                         then map_option (\<lambda>n. if left n = Some x then n\<lparr>left := Some y\<rparr> else n\<lparr>right := Some y\<rparr>) (nodes m q)
                       else nodes m q)"
  proof (rule left_rotate_heap[OF nx _ ny])
    show "right ?nx = Some y" by (simp add: mk_node_def)
    show "x \<noteq> y" using D by auto
    show "\<And>q. left ?ny = Some q \<Longrightarrow> q \<noteq> x \<and> q \<noteq> y \<and> nodes m q \<noteq> None"
      using D pb balloc by (auto simp: mk_node_def)
    show "\<And>p. parent ?nx = Some p \<Longrightarrow> p \<noteq> x \<and> p \<noteq> y \<and> left ?ny \<noteq> Some p \<and> nodes m p \<noteq> None"
      using D pb pc ctx_node_allocated[OF r] by (auto simp: mk_node_def)
  qed
  then obtain m' where rot: "left_rotate m (Some x) = Some m'" "m' = m\<lparr>root := root m', nodes := nodes m'\<rparr>"
    and rt0: "root m' = (if parent ?nx = None then Some y else root m)"
    and hm: "nodes m' = (\<lambda>q. if q = x then Some (?nx\<lparr>right := left ?ny, parent := Some y\<rparr>)
                       else if q = y then Some (?ny\<lparr>parent := parent ?nx, left := Some x\<rparr>)
                       else if left ?ny = Some q then map_option (\<lambda>n. n\<lparr>parent := Some x\<rparr>) (nodes m q)
                       else if parent ?nx = Some q
                         then map_option (\<lambda>n. if left n = Some x then n\<lparr>left := Some y\<rparr> else n\<lparr>right := Some y\<rparr>) (nodes m q)
                       else nodes m q)"
    by blast
  have xy: "x \<noteq> y" using D by auto
  have rt: "root m' = (if fs = [] then Some y else root m)" using rt0 by (simp add: mk_node_def)
  have hx: "nodes m' x = Some (mk_node (Some y) a cx kx vx b)"
    by (subst hm) (simp add: mk_node_def)
  have hy: "nodes m' y = Some (mk_node (cpar fs) (Node a x cx kx vx b) cy ky vy c)"
    by (subst hm) (simp add: mk_node_def xy xy[symmetric])
  have hb: "nodes m' q = map_option (\<lambda>n. n\<lparr>parent := Some x\<rparr>) (nodes m q)" if "ptr b = Some q" for q
  proof -
    have "q \<noteq> x" "q \<noteq> y" using pb[OF that] D by auto
    then show ?thesis using that by (subst hm) (simp add: mk_node_def)
  qed
  have hp: "nodes m' q =
        map_option (\<lambda>n. if left n = Some x then n\<lparr>left := Some y\<rparr> else n\<lparr>right := Some y\<rparr>) (nodes m q)"
    if "cpar fs = Some q" for q
  proof -
    have "q \<noteq> x" "q \<noteq> y" "ptr b \<noteq> Some q" using pc[OF that] pb[of q] D by auto
    then show ?thesis using that by (subst hm) (simp add: mk_node_def)
  qed
  have ho: "nodes m' q = nodes m q" if "q \<noteq> x" "q \<noteq> y" "ptr b \<noteq> Some q" "cpar fs \<noteq> Some q" for q
    using that by (subst hm) (simp add: mk_node_def)
  have fa: "repr (nodes m') (Some x) a"
  proof -
    have "repr (nodes m') (Some x) a = repr (nodes m) (Some x) a"
      by (rule repr_frame, rule ho) (use D pb pc in auto)
    with ra show ?thesis by simp
  qed
  have fc: "repr (nodes m') (Some y) c"
  proof -
    have "repr (nodes m') (Some y) c = repr (nodes m) (Some y) c"
      by (rule repr_frame, rule ho) (use D pb pc in auto)
    with rc show ?thesis by simp
  qed
  have fb: "repr (nodes m') (Some x) b"
  proof (rule repr_reparent[OF rb])
    show "distinct (addrs b)" using D by simp
    show "\<And>q n. ptr b = Some q \<Longrightarrow> nodes m q = Some n \<Longrightarrow> nodes m' q = Some (n\<lparr>parent := Some x\<rparr>)"
      using hb by simp
    show "\<And>q. q \<in> set (addrs b) \<Longrightarrow> ptr b \<noteq> Some q \<Longrightarrow> nodes m' q = nodes m q"
      by (rule ho) (use D pc in auto)
  qed
  have new: "repr (nodes m') (cpar fs) ?new" using hx hy fa fb fc by simp
  have "repr_map m' (plug fs ?new)"
  proof (rule repr_map_plug_replace[OF R new])
    show "inorder ?new = inorder ?old" by simp
    show "\<And>q. q \<in> set (ctx_addrs fs) \<Longrightarrow> cpar fs \<noteq> Some q \<Longrightarrow> nodes m' q = nodes m q"
      by (rule ho) (use D pb in auto)
    show "root m' = (if fs = [] then ptr ?new else root m)" using rt by simp
    fix f fs' assume fs: "fs = f # fs'"
    have rf: "repr (nodes m) (cpar fs') (fill f ?old)" using repr_plug_sub[of "nodes m" fs' "fill f ?old"] r fs by simp
    show "repr (nodes m') (cpar fs') (fill f ?new)"
    proof (cases f rule: frame_cases)
      case (Lft p c k v s)
      from rf Lft have np: "nodes m p = Some (mk_node (cpar fs') ?old c k v s)" and rs: "repr (nodes m) (Some p) s"
        by auto
      have "nodes m' p = Some (mk_node (cpar fs') ?new c k v s)"
        using hp[of p] np fs Lft by (simp add: mk_node_def)
      moreover have "repr (nodes m') (Some p) s = repr (nodes m) (Some p) s"
        by (rule repr_frame, rule ho) (use D pb fs Lft in auto)
      ultimately show ?thesis using new rs fs Lft by simp
    next
      case (Rgt p c k v s)
      from rf Rgt have np: "nodes m p = Some (mk_node (cpar fs') s c k v ?old)" and rs: "repr (nodes m) (Some p) s"
        by auto
      have "ptr s \<noteq> Some x" using sibling_ptr_neq[of Rgt p c k v s fs' ?old x] d fs Rgt by simp
      then have "nodes m' p = Some (mk_node (cpar fs') s c k v ?new)"
        using hp[of p] np fs Rgt by (simp add: mk_node_def)
      moreover have "repr (nodes m') (Some p) s = repr (nodes m) (Some p) s"
        by (rule repr_frame, rule ho) (use D pb fs Rgt in auto)
      ultimately show ?thesis using new rs fs Rgt by simp
    qed
  qed
  with rot show ?thesis by blast
qed

lemma right_rotate_tree:
  assumes R: "repr_map m (plug fs (Node (Node a x cx kx vx b) y cy ky vy c))"
  shows "\<exists>m'. right_rotate m (Some y) = Some m' \<and> m' = m\<lparr>root := root m', nodes := nodes m'\<rparr> \<and>
      repr_map m' (plug fs (Node a x cx kx vx (Node b y cy ky vy c)))"
proof -
  let ?old = "Node (Node a x cx kx vx b) y cy ky vy c"
  let ?new = "Node a x cx kx vx (Node b y cy ky vy c)"
  let ?ny = "mk_node (cpar fs) (Node a x cx kx vx b) cy ky vy c"
  let ?nx = "mk_node (Some y) a cx kx vx b"
  from R have r: "repr (nodes m) None (plug fs ?old)" and d: "distinct (addrs (plug fs ?old))"
    by (auto simp: repr_map_def)
  have sub: "repr (nodes m) (cpar fs) ?old" using repr_plug_sub[OF r] .
  then have nx: "nodes m x = Some ?nx" and ny: "nodes m y = Some ?ny"
    and ra: "repr (nodes m) (Some x) a" and rb: "repr (nodes m) (Some x) b"
    and rc: "repr (nodes m) (Some y) c" by auto
  from d have D: "distinct (addrs a @ x # addrs b @ y # addrs c)" "distinct (ctx_addrs fs)"
      "set (addrs a @ x # addrs b @ y # addrs c) \<inter> set (ctx_addrs fs) = {}"
    by (auto simp: distinct_plug_iff)
  have pb: "ptr b = Some q \<Longrightarrow> q \<in> set (addrs b)" for q by (rule ptr_in_addrs)
  have pc: "cpar fs = Some q \<Longrightarrow> q \<in> set (ctx_addrs fs)" for q by (rule cpar_in_ctx)
  have balloc: "ptr b = Some q \<Longrightarrow> nodes m q \<noteq> None" for q
    using rb by (cases b) auto
  have "\<exists>m'. right_rotate m (Some y) = Some m' \<and> m' = m\<lparr>root := root m', nodes := nodes m'\<rparr> \<and>
      root m' = (if parent ?ny = None then Some x else root m) \<and>
      nodes m' = (\<lambda>q. if q = y then Some (?ny\<lparr>left := right ?nx, parent := Some x\<rparr>)
                       else if q = x then Some (?nx\<lparr>parent := parent ?ny, right := Some y\<rparr>)
                       else if right ?nx = Some q then map_option (\<lambda>n. n\<lparr>parent := Some y\<rparr>) (nodes m q)
                       else if parent ?ny = Some q
                         then map_option (\<lambda>n. if right n = Some y then n\<lparr>right := Some x\<rparr> else n\<lparr>left := Some x\<rparr>) (nodes m q)
                       else nodes m q)"
  proof (rule right_rotate_heap[OF ny _ nx])
    show "left ?ny = Some x" by (simp add: mk_node_def)
    show "x \<noteq> y" using D by auto
    show "\<And>q. right ?nx = Some q \<Longrightarrow> q \<noteq> x \<and> q \<noteq> y \<and> nodes m q \<noteq> None"
      using D pb balloc by (auto simp: mk_node_def)
    show "\<And>p. parent ?ny = Some p \<Longrightarrow> p \<noteq> x \<and> p \<noteq> y \<and> right ?nx \<noteq> Some p \<and> nodes m p \<noteq> None"
      using D pb pc ctx_node_allocated[OF r] by (auto simp: mk_node_def)
  qed
  then obtain m' where rot: "right_rotate m (Some y) = Some m'" "m' = m\<lparr>root := root m', nodes := nodes m'\<rparr>"
    and rt0: "root m' = (if parent ?ny = None then Some x else root m)"
    and hm: "nodes m' = (\<lambda>q. if q = y then Some (?ny\<lparr>left := right ?nx, parent := Some x\<rparr>)
                       else if q = x then Some (?nx\<lparr>parent := parent ?ny, right := Some y\<rparr>)
                       else if right ?nx = Some q then map_option (\<lambda>n. n\<lparr>parent := Some y\<rparr>) (nodes m q)
                       else if parent ?ny = Some q
                         then map_option (\<lambda>n. if right n = Some y then n\<lparr>right := Some x\<rparr> else n\<lparr>left := Some x\<rparr>) (nodes m q)
                       else nodes m q)"
    by blast
  have xy: "x \<noteq> y" using D by auto
  have rt: "root m' = (if fs = [] then Some x else root m)" using rt0 by (simp add: mk_node_def)
  have hy: "nodes m' y = Some (mk_node (Some x) b cy ky vy c)"
    by (subst hm) (simp add: mk_node_def)
  have hx: "nodes m' x = Some (mk_node (cpar fs) a cx kx vx (Node b y cy ky vy c))"
    by (subst hm) (simp add: mk_node_def xy xy[symmetric])
  have hb: "nodes m' q = map_option (\<lambda>n. n\<lparr>parent := Some y\<rparr>) (nodes m q)" if "ptr b = Some q" for q
  proof -
    have "q \<noteq> x" "q \<noteq> y" using pb[OF that] D by auto
    then show ?thesis using that by (subst hm) (simp add: mk_node_def)
  qed
  have hp: "nodes m' q =
        map_option (\<lambda>n. if right n = Some y then n\<lparr>right := Some x\<rparr> else n\<lparr>left := Some x\<rparr>) (nodes m q)"
    if "cpar fs = Some q" for q
  proof -
    have "q \<noteq> x" "q \<noteq> y" "ptr b \<noteq> Some q" using pc[OF that] pb[of q] D by auto
    then show ?thesis using that by (subst hm) (simp add: mk_node_def)
  qed
  have ho: "nodes m' q = nodes m q" if "q \<noteq> x" "q \<noteq> y" "ptr b \<noteq> Some q" "cpar fs \<noteq> Some q" for q
    using that by (subst hm) (simp add: mk_node_def)
  have fa: "repr (nodes m') (Some x) a"
  proof -
    have "repr (nodes m') (Some x) a = repr (nodes m) (Some x) a"
      by (rule repr_frame, rule ho) (use D pb pc in auto)
    with ra show ?thesis by simp
  qed
  have fc: "repr (nodes m') (Some y) c"
  proof -
    have "repr (nodes m') (Some y) c = repr (nodes m) (Some y) c"
      by (rule repr_frame, rule ho) (use D pb pc in auto)
    with rc show ?thesis by simp
  qed
  have fb: "repr (nodes m') (Some y) b"
  proof (rule repr_reparent[OF rb])
    show "distinct (addrs b)" using D by simp
    show "\<And>q n. ptr b = Some q \<Longrightarrow> nodes m q = Some n \<Longrightarrow> nodes m' q = Some (n\<lparr>parent := Some y\<rparr>)"
      using hb by simp
    show "\<And>q. q \<in> set (addrs b) \<Longrightarrow> ptr b \<noteq> Some q \<Longrightarrow> nodes m' q = nodes m q"
      by (rule ho) (use D pc in auto)
  qed
  have new: "repr (nodes m') (cpar fs) ?new" using hx hy fa fb fc by simp
  have "repr_map m' (plug fs ?new)"
  proof (rule repr_map_plug_replace[OF R new])
    show "inorder ?new = inorder ?old" by simp
    show "\<And>q. q \<in> set (ctx_addrs fs) \<Longrightarrow> cpar fs \<noteq> Some q \<Longrightarrow> nodes m' q = nodes m q"
      by (rule ho) (use D pb in auto)
    show "root m' = (if fs = [] then ptr ?new else root m)" using rt by simp
    fix f fs' assume fs: "fs = f # fs'"
    have rf: "repr (nodes m) (cpar fs') (fill f ?old)" using repr_plug_sub[of "nodes m" fs' "fill f ?old"] r fs by simp
    show "repr (nodes m') (cpar fs') (fill f ?new)"
    proof (cases f rule: frame_cases)
      case (Rgt p c k v s)
      from rf Rgt have np: "nodes m p = Some (mk_node (cpar fs') s c k v ?old)" and rs: "repr (nodes m) (Some p) s"
        by auto
      have "nodes m' p = Some (mk_node (cpar fs') s c k v ?new)"
        using hp[of p] np fs Rgt by (simp add: mk_node_def)
      moreover have "repr (nodes m') (Some p) s = repr (nodes m) (Some p) s"
        by (rule repr_frame, rule ho) (use D pb fs Rgt in auto)
      ultimately show ?thesis using new rs fs Rgt by simp
    next
      case (Lft p c k v s)
      from rf Lft have np: "nodes m p = Some (mk_node (cpar fs') ?old c k v s)" and rs: "repr (nodes m) (Some p) s"
        by auto
      have "ptr s \<noteq> Some y" using sibling_ptr_neq[of Lft p c k v s fs' ?old y] d fs Lft by simp
      then have "nodes m' p = Some (mk_node (cpar fs') ?new c k v s)"
        using hp[of p] np fs Lft by (simp add: mk_node_def)
      moreover have "repr (nodes m') (Some p) s = repr (nodes m) (Some p) s"
        by (rule repr_frame, rule ho) (use D pb fs Lft in auto)
      ultimately show ?thesis using new rs fs Lft by simp
    qed
  qed
  with rot show ?thesis by blast
qed

text \<open>Recolouring the node at a position.\<close>

lemma set_color_tree:
  assumes R: "repr_map m (plug fs (Node l a c k v r))"
  shows "\<exists>m'. set_color (Some a) c' m = Some m' \<and> m' = m\<lparr>root := root m', nodes := nodes m'\<rparr> \<and>
      repr_map m' (plug fs (Node l a c' k v r))"
proof -
  let ?old = "Node l a c k v r"
  let ?new = "Node l a c' k v r"
  from R have r: "repr (nodes m) None (plug fs ?old)" and d: "distinct (addrs (plug fs ?old))"
    by (auto simp: repr_map_def)
  have sub: "repr (nodes m) (cpar fs) ?old" using repr_plug_sub[OF r] .
  then have n: "nodes m a = Some (mk_node (cpar fs) l c k v r)"
    and rl: "repr (nodes m) (Some a) l" and rr: "repr (nodes m) (Some a) r" by auto
  from d have D: "distinct (addrs l @ a # addrs r)" "distinct (ctx_addrs fs)"
      "set (addrs l @ a # addrs r) \<inter> set (ctx_addrs fs) = {}"
    by (auto simp: distinct_plug_iff)
  define m' where "m' = m\<lparr>nodes := (nodes m)(a \<mapsto> mk_node (cpar fs) l c' k v r)\<rparr>"
  have sc: "set_color (Some a) c' m = Some m'"
    by (simp add: set_color_def store_def n m'_def mk_node_def)
  have ha: "nodes m' a = Some (mk_node (cpar fs) l c' k v r)" by (simp add: m'_def)
  have ho: "q \<noteq> a \<Longrightarrow> nodes m' q = nodes m q" for q by (simp add: m'_def)
  have fl: "repr (nodes m') (Some a) l = repr (nodes m) (Some a) l"
    by (rule repr_frame, rule ho) (use D in auto)
  have fr: "repr (nodes m') (Some a) r = repr (nodes m) (Some a) r"
    by (rule repr_frame, rule ho) (use D in auto)
  have new: "repr (nodes m') (cpar fs) ?new" using ha fl fr rl rr by simp
  have "repr_map m' (plug fs ?new)"
  proof (rule repr_map_plug_replace[OF R new])
    show "inorder ?new = inorder ?old" by simp
    show "\<And>q. q \<in> set (ctx_addrs fs) \<Longrightarrow> cpar fs \<noteq> Some q \<Longrightarrow> nodes m' q = nodes m q"
      by (rule ho) (use D in auto)
    show "root m' = (if fs = [] then ptr ?new else root m)"
      using R by (auto simp: m'_def repr_map_def)
    fix f fs' assume fs: "fs = f # fs'"
    have rf: "repr (nodes m) (cpar fs') (fill f ?old)" using repr_plug_sub[of "nodes m" fs' "fill f ?old"] r fs by simp
    show "repr (nodes m') (cpar fs') (fill f ?new)"
    proof (cases f rule: frame_cases)
      case (Rgt p cp kp vp s)
      from rf Rgt have np: "nodes m p = Some (mk_node (cpar fs') s cp kp vp ?old)" and rs: "repr (nodes m) (Some p) s"
        by auto
      have "nodes m' p = Some (mk_node (cpar fs') s cp kp vp ?new)"
        using ho[of p] np fs Rgt D by (auto simp: mk_node_def)
      moreover have "repr (nodes m') (Some p) s = repr (nodes m) (Some p) s"
        by (rule repr_frame, rule ho) (use D fs Rgt in auto)
      ultimately show ?thesis using new rs fs Rgt by simp
    next
      case (Lft p cp kp vp s)
      from rf Lft have np: "nodes m p = Some (mk_node (cpar fs') ?old cp kp vp s)" and rs: "repr (nodes m) (Some p) s"
        by auto
      have "nodes m' p = Some (mk_node (cpar fs') ?new cp kp vp s)"
        using ho[of p] np fs Lft D by (auto simp: mk_node_def)
      moreover have "repr (nodes m') (Some p) s = repr (nodes m) (Some p) s"
        by (rule repr_frame, rule ho) (use D fs Lft in auto)
      ultimately show ?thesis using new rs fs Lft by simp
    qed
  qed
  moreover have "m' = m\<lparr>root := root m', nodes := nodes m'\<rparr>" by (simp add: m'_def)
  ultimately show ?thesis using sc by blast
qed


section \<open>Rebalancing after insertion\<close>

lemma same_rest_trans:
  assumes "m1 = m\<lparr>root := root m1, nodes := nodes m1\<rparr>" "m2 = m1\<lparr>root := root m2, nodes := nodes m2\<rparr>"
  shows "m2 = m\<lparr>root := root m2, nodes := nodes m2\<rparr>"
proof -
  have "m2 = (m\<lparr>root := root m1, nodes := nodes m1\<rparr>)\<lparr>root := root m2, nodes := nodes m2\<rparr>"
    using assms by simp
  then show ?thesis by simp
qed

lemma node_fetch:
  assumes "repr_map m (plug fs (Node l a c k v r))"
  shows "fetch m (Some a) parent = Some (cpar fs)" "get_color m (Some a) = Some c"
    "fetch m (Some a) left = Some (ptr l)" "fetch m (Some a) right = Some (ptr r)"
    "fetch m (Some a) key = Some k" "fetch m (Some a) val = Some v" "fetch m (Some a) color = Some c"
  using repr_map_node[OF assms] by (simp_all add: mk_node_def)

lemma frame_fetch:
  assumes "repr_map m (plug (Frame d a c k v s # fs) t)"
  shows "fetch m (Some a) parent = Some (cpar fs)" "get_color m (Some a) = Some c"
    "fetch m (Some a) left = Some (if d = Lft then ptr t else ptr s)"
    "fetch m (Some a) right = Some (if d = Lft then ptr s else ptr t)"
    "fetch m (Some a) key = Some k"
proof -
  show "fetch m (Some a) parent = Some (cpar fs)" "get_color m (Some a) = Some c"
    "fetch m (Some a) left = Some (if d = Lft then ptr t else ptr s)"
    "fetch m (Some a) right = Some (if d = Lft then ptr s else ptr t)"
    "fetch m (Some a) key = Some k"
    using assms node_fetch[of m fs t a c k v s] node_fetch[of m fs s a c k v t]
    by (cases d; simp)+
qed

lemma set_color_frame:
  assumes "repr_map m (plug (Frame d a c k v s # fs) t)"
  shows "\<exists>m'. set_color (Some a) c' m = Some m' \<and> m' = m\<lparr>root := root m', nodes := nodes m'\<rparr> \<and>
      repr_map m' (plug (Frame d a c' k v s # fs) t)"
  using assms set_color_tree[of m fs t a c k v s c'] set_color_tree[of m fs s a c k v t c']
  by (cases d) simp_all

lemma set_color_fetch:
  assumes "set_color q c m = Some m'"
  shows "fetch m' x parent = fetch m x parent" "fetch m' x left = fetch m x left"
    "fetch m' x right = fetch m x right" "fetch m' x key = fetch m x key"
    "fetch m' x val = fetch m x val"
  using assms
  by (auto simp: set_color_def store_def fetch_def split: option.splits if_splits)

lemma is_sub_refl [simp]: "is_sub t t"
  by (cases t) auto

lemma is_sub_fill: "is_sub s t \<Longrightarrow> is_sub s (fill f t)"
  by (cases f rule: frame_cases) auto

lemma is_sub_plug: "is_sub s t \<Longrightarrow> is_sub s (plug fs t)"
  by (induction fs arbitrary: t) (auto simp: is_sub_fill)

lemma flip_Lft: "plug (Frame Lft a c k v s # fs) t = plug (Frame Rgt a c k v t # fs) s"
  by simp

lemma inorder_fill:
  "inorder (fill (Frame d a c k v s) t) =
     (if d = Lft then inorder t @ (a, k, v) # inorder s else inorder s @ (a, k, v) # inorder t)"
  by (cases d) auto

lemma ptr_fill [simp]: "ptr (fill (Frame d a c k v s) t) = Some a"
  by (cases d) auto

lemma insert_fixup_exit_root:
  assumes "repr_map m (Node l z c k v r)"
  shows "insert_fixup_loop m (Some z) = Some m"
  using node_fetch(1)[of m "[]" l z c k v r] assms
  by (subst insert_fixup_loop.simps) (simp del: fetch_Some get_color_Some)

lemma insert_fixup_exit_black:
  assumes "repr_map m (plug (Frame d p RB_BLACK kp vp sp # fs) (Node l z c k v r))"
  shows "insert_fixup_loop m (Some z) = Some m"
  using node_fetch(1)[OF assms] frame_fetch(2)[OF assms]
  by (subst insert_fixup_loop.simps) (simp del: fetch_Some get_color_Some)

lemma insert_fixup_recolor_left:
  assumes R: "repr_map m (plug (Frame d1 p RB_RED kp vp sp # Frame Lft g cg kg vg (Node ul y RB_RED ky vy ur) # fs)
      (Node l z c k v r))"
  shows "\<exists>m'. insert_fixup_loop m (Some z) = insert_fixup_loop m' (Some g) \<and>
      m' = m\<lparr>root := root m', nodes := nodes m'\<rparr> \<and>
      repr_map m' (plug fs (Node (fill (Frame d1 p RB_BLACK kp vp sp) (Node l z c k v r)) g RB_RED kg vg
        (Node ul y RB_BLACK ky vy ur)))"
proof -
  let ?zs = "Node l z c k v r"
  let ?f1 = "Frame d1 p RB_RED kp vp sp"
  let ?f1b = "Frame d1 p RB_BLACK kp vp sp"
  let ?u = "Node ul y RB_RED ky vy ur"
  let ?ub = "Node ul y RB_BLACK ky vy ur"
  have zp: "fetch m (Some z) parent = Some (Some p)" using node_fetch(1)[OF R] by simp
  have pc: "get_color m (Some p) = Some RB_RED" and pp: "fetch m (Some p) parent = Some (Some g)"
    using frame_fetch[OF R] by simp_all
  have Rg: "repr_map m (plug (Frame Lft g cg kg vg ?u # fs) (fill ?f1 ?zs))" using R by simp
  have gl: "fetch m (Some g) left = Some (Some p)" and gr: "fetch m (Some g) right = Some (Some y)"
    using frame_fetch[OF Rg] by simp_all
  have Ry: "repr_map m (plug (Frame Rgt g cg kg vg (fill ?f1 ?zs) # fs) ?u)" using R by simp
  have yc: "get_color m (Some y) = Some RB_RED" using node_fetch(2)[OF Ry] .
  from set_color_frame[OF R, of RB_BLACK] obtain m1 where
    s1: "set_color (Some p) RB_BLACK m = Some m1" and e1: "m1 = m\<lparr>root := root m1, nodes := nodes m1\<rparr>"
    and R1: "repr_map m1 (plug (?f1b # Frame Lft g cg kg vg ?u # fs) ?zs)" by blast
  have R1y: "repr_map m1 (plug (Frame Rgt g cg kg vg (fill ?f1b ?zs) # fs) ?u)" using R1 by simp
  from set_color_tree[OF R1y, of RB_BLACK] obtain m2 where
    s2: "set_color (Some y) RB_BLACK m1 = Some m2" and e2: "m2 = m1\<lparr>root := root m2, nodes := nodes m2\<rparr>"
    and R2: "repr_map m2 (plug (Frame Rgt g cg kg vg (fill ?f1b ?zs) # fs) ?ub)" by blast
  have R2g: "repr_map m2 (plug (Frame Lft g cg kg vg ?ub # fs) (fill ?f1b ?zs))" using R2 by simp
  from set_color_frame[OF R2g, of RB_RED] obtain m3 where
    s3: "set_color (Some g) RB_RED m2 = Some m3" and e3: "m3 = m2\<lparr>root := root m3, nodes := nodes m3\<rparr>"
    and R3: "repr_map m3 (plug (Frame Lft g RB_RED kg vg ?ub # fs) (fill ?f1b ?zs))" by blast
  have zp2: "fetch m2 (Some z) parent = Some (Some p)" and pp2: "fetch m2 (Some p) parent = Some (Some g)"
    using set_color_fetch(1)[OF s2] set_color_fetch(1)[OF s1] zp pp by (simp_all del: fetch_Some)
  have zp3: "fetch m3 (Some z) parent = Some (Some p)" and pp3: "fetch m3 (Some p) parent = Some (Some g)"
    using set_color_fetch(1)[OF s3] zp2 pp2 by (simp_all del: fetch_Some)
  have "insert_fixup_loop m (Some z) = insert_fixup_loop m3 (Some g)"
    by (subst insert_fixup_loop.simps)
       (simp del: fetch_Some get_color_Some add: zp pc pp gl gr yc s1 s2 s3 zp2 pp2 zp3 pp3)
  moreover have "m3 = m\<lparr>root := root m3, nodes := nodes m3\<rparr>"
    using same_rest_trans[OF same_rest_trans[OF e1 e2] e3] .
  moreover have "repr_map m3 (plug fs (Node (fill ?f1b ?zs) g RB_RED kg vg ?ub))" using R3 by simp
  ultimately show ?thesis by blast
qed

lemma insert_fixup_recolor_right:
  assumes R: "repr_map m (plug (Frame d1 p RB_RED kp vp sp # Frame Rgt g cg kg vg (Node ul y RB_RED ky vy ur) # fs)
      (Node l z c k v r))"
  shows "\<exists>m'. insert_fixup_loop m (Some z) = insert_fixup_loop m' (Some g) \<and>
      m' = m\<lparr>root := root m', nodes := nodes m'\<rparr> \<and>
      repr_map m' (plug fs (Node (Node ul y RB_BLACK ky vy ur) g RB_RED kg vg
        (fill (Frame d1 p RB_BLACK kp vp sp) (Node l z c k v r))))"
proof -
  let ?zs = "Node l z c k v r"
  let ?f1 = "Frame d1 p RB_RED kp vp sp"
  let ?f1b = "Frame d1 p RB_BLACK kp vp sp"
  let ?u = "Node ul y RB_RED ky vy ur"
  let ?ub = "Node ul y RB_BLACK ky vy ur"
  have zp: "fetch m (Some z) parent = Some (Some p)" using node_fetch(1)[OF R] by simp
  have pc: "get_color m (Some p) = Some RB_RED" and pp: "fetch m (Some p) parent = Some (Some g)"
    using frame_fetch[OF R] by simp_all
  have Rg: "repr_map m (plug (Frame Rgt g cg kg vg ?u # fs) (fill ?f1 ?zs))" using R by simp
  have gl: "fetch m (Some g) left = Some (Some y)"
    using frame_fetch[OF Rg] by simp_all
  have py: "p \<noteq> y"
    using sibling_ptr_neq[of Rgt g cg kg vg ?u fs "fill ?f1 ?zs" p] Rg by (auto simp: repr_map_def)
  have Ry: "repr_map m (plug (Frame Lft g cg kg vg (fill ?f1 ?zs) # fs) ?u)" using R by simp
  have yc: "get_color m (Some y) = Some RB_RED" using node_fetch(2)[OF Ry] .
  from set_color_frame[OF R, of RB_BLACK] obtain m1 where
    s1: "set_color (Some p) RB_BLACK m = Some m1" and e1: "m1 = m\<lparr>root := root m1, nodes := nodes m1\<rparr>"
    and R1: "repr_map m1 (plug (?f1b # Frame Rgt g cg kg vg ?u # fs) ?zs)" by blast
  have R1y: "repr_map m1 (plug (Frame Lft g cg kg vg (fill ?f1b ?zs) # fs) ?u)" using R1 by simp
  from set_color_tree[OF R1y, of RB_BLACK] obtain m2 where
    s2: "set_color (Some y) RB_BLACK m1 = Some m2" and e2: "m2 = m1\<lparr>root := root m2, nodes := nodes m2\<rparr>"
    and R2: "repr_map m2 (plug (Frame Lft g cg kg vg (fill ?f1b ?zs) # fs) ?ub)" by blast
  have R2g: "repr_map m2 (plug (Frame Rgt g cg kg vg ?ub # fs) (fill ?f1b ?zs))" using R2 by simp
  from set_color_frame[OF R2g, of RB_RED] obtain m3 where
    s3: "set_color (Some g) RB_RED m2 = Some m3" and e3: "m3 = m2\<lparr>root := root m3, nodes := nodes m3\<rparr>"
    and R3: "repr_map m3 (plug (Frame Rgt g RB_RED kg vg ?ub # fs) (fill ?f1b ?zs))" by blast
  have zp2: "fetch m2 (Some z) parent = Some (Some p)" and pp2: "fetch m2 (Some p) parent = Some (Some g)"
    using set_color_fetch(1)[OF s2] set_color_fetch(1)[OF s1] zp pp by (simp_all del: fetch_Some)
  have zp3: "fetch m3 (Some z) parent = Some (Some p)" and pp3: "fetch m3 (Some p) parent = Some (Some g)"
    using set_color_fetch(1)[OF s3] zp2 pp2 by (simp_all del: fetch_Some)
  have "insert_fixup_loop m (Some z) = insert_fixup_loop m3 (Some g)"
    by (subst insert_fixup_loop.simps)
       (simp del: fetch_Some get_color_Some add: zp pc pp gl py yc s1 s2 s3 zp2 pp2 zp3 pp3)
  moreover have "m3 = m\<lparr>root := root m3, nodes := nodes m3\<rparr>"
    using same_rest_trans[OF same_rest_trans[OF e1 e2] e3] .
  moreover have "repr_map m3 (plug fs (Node ?ub g RB_RED kg vg (fill ?f1b ?zs)))" using R3 by simp
  ultimately show ?thesis by blast
qed

lemma get_color_ptr:
  assumes "repr_map m (plug fs u)"
  shows "get_color m (ptr u) = Some (color_of u)"
proof (cases u)
  case Leaf
  then show ?thesis by simp
next
  case (Node l a c k v r)
  with node_fetch(2)[of m fs l a c k v r] assms show ?thesis by simp
qed

lemma insert_fixup_rotate_left_outer:
  assumes R: "repr_map m (plug (Frame Lft p RB_RED kp vp sp # Frame Lft g cg kg vg u # fs) (Node l z c k v r))"
    and ub: "color_of u = RB_BLACK"
  shows "\<exists>m'. insert_fixup_loop m (Some z) = Some m' \<and>
      m' = m\<lparr>root := root m', nodes := nodes m'\<rparr> \<and>
      repr_map m' (plug fs (Node (Node l z c k v r) p RB_BLACK kp vp (Node sp g RB_RED kg vg u)))"
proof -
  let ?zs = "Node l z c k v r"
  have d: "distinct (addrs (plug (Frame Lft p RB_RED kp vp sp # Frame Lft g cg kg vg u # fs) ?zs))"
    using R by (simp add: repr_map_def)
  have zp: "fetch m (Some z) parent = Some (Some p)" using node_fetch(1)[OF R] by simp
  have pc: "get_color m (Some p) = Some RB_RED" and pp: "fetch m (Some p) parent = Some (Some g)"
    and pr: "fetch m (Some p) right = Some (ptr sp)"
    using frame_fetch[OF R] by simp_all
  have zsp: "Some z \<noteq> ptr sp"
    using sibling_ptr_neq[OF d, of z] by auto
  have Rg: "repr_map m (plug (Frame Lft g cg kg vg u # fs) (Node ?zs p RB_RED kp vp sp))" using R by simp
  have gl: "fetch m (Some g) left = Some (Some p)" and gr: "fetch m (Some g) right = Some (ptr u)"
    using frame_fetch[OF Rg] by simp_all
  have Ry: "repr_map m (plug (Frame Rgt g cg kg vg (Node ?zs p RB_RED kp vp sp) # fs) u)" using R by simp
  have yc: "get_color m (ptr u) = Some RB_BLACK" using get_color_ptr[OF Ry] ub by simp
  from set_color_frame[OF R, of RB_BLACK] obtain m1 where
    s1: "set_color (Some p) RB_BLACK m = Some m1" and e1: "m1 = m\<lparr>root := root m1, nodes := nodes m1\<rparr>"
    and R1: "repr_map m1 (plug (Frame Lft p RB_BLACK kp vp sp # Frame Lft g cg kg vg u # fs) ?zs)" by blast
  have R1g: "repr_map m1 (plug (Frame Lft g cg kg vg u # fs) (Node ?zs p RB_BLACK kp vp sp))" using R1 by simp
  from set_color_frame[OF R1g, of RB_RED] obtain m2 where
    s2: "set_color (Some g) RB_RED m1 = Some m2" and e2: "m2 = m1\<lparr>root := root m2, nodes := nodes m2\<rparr>"
    and R2: "repr_map m2 (plug (Frame Lft g RB_RED kg vg u # fs) (Node ?zs p RB_BLACK kp vp sp))" by blast
  have R2': "repr_map m2 (plug fs (Node (Node ?zs p RB_BLACK kp vp sp) g RB_RED kg vg u))" using R2 by simp
  from right_rotate_tree[OF R2'] obtain m3 where
    s3: "right_rotate m2 (Some g) = Some m3" and e3: "m3 = m2\<lparr>root := root m3, nodes := nodes m3\<rparr>"
    and R3: "repr_map m3 (plug fs (Node ?zs p RB_BLACK kp vp (Node sp g RB_RED kg vg u)))" by blast
  have zp1: "fetch m1 (Some z) parent = Some (Some p)" and pp1: "fetch m1 (Some p) parent = Some (Some g)"
    using set_color_fetch(1)[OF s1] zp pp by (simp_all del: fetch_Some)
  have zp2: "fetch m2 (Some z) parent = Some (Some p)" and pp2: "fetch m2 (Some p) parent = Some (Some g)"
    using set_color_fetch(1)[OF s2] zp1 pp1 by (simp_all del: fetch_Some)
  have R3z: "repr_map m3 (plug (Frame Lft p RB_BLACK kp vp (Node sp g RB_RED kg vg u) # fs) ?zs)"
    using R3 by simp
  have ex: "insert_fixup_loop m3 (Some z) = Some m3" by (rule insert_fixup_exit_black[OF R3z])
  have "insert_fixup_loop m (Some z) = Some m3"
    by (subst insert_fixup_loop.simps)
       (simp del: fetch_Some get_color_Some add: zp pc pp pr zsp gl gr yc s1 s2 s3 zp1 pp1 zp2 pp2 ex)
  moreover have "m3 = m\<lparr>root := root m3, nodes := nodes m3\<rparr>"
    using same_rest_trans[OF same_rest_trans[OF e1 e2] e3] .
  ultimately show ?thesis using R3 by blast
qed

lemma insert_fixup_rotate_left_inner:
  assumes R: "repr_map m (plug (Frame Rgt p RB_RED kp vp sp # Frame Lft g cg kg vg u # fs) (Node l z c k v r))"
    and ub: "color_of u = RB_BLACK"
  shows "\<exists>m'. insert_fixup_loop m (Some z) = Some m' \<and>
      m' = m\<lparr>root := root m', nodes := nodes m'\<rparr> \<and>
      repr_map m' (plug fs (Node (Node sp p RB_RED kp vp l) z RB_BLACK k v (Node r g RB_RED kg vg u)))"
proof -
  let ?zs = "Node l z c k v r"
  let ?F = "Frame Lft g cg kg vg u # fs"
  have zp: "fetch m (Some z) parent = Some (Some p)" using node_fetch(1)[OF R] by simp
  have pc: "get_color m (Some p) = Some RB_RED" and pp: "fetch m (Some p) parent = Some (Some g)"
    and pr: "fetch m (Some p) right = Some (Some z)"
    using frame_fetch[OF R] by simp_all
  have Rg: "repr_map m (plug ?F (Node sp p RB_RED kp vp ?zs))" using R by simp
  have gl: "fetch m (Some g) left = Some (Some p)" and gr: "fetch m (Some g) right = Some (ptr u)"
    using frame_fetch[OF Rg] by simp_all
  have Ry: "repr_map m (plug (Frame Rgt g cg kg vg (Node sp p RB_RED kp vp ?zs) # fs) u)" using R by simp
  have yc: "get_color m (ptr u) = Some RB_BLACK" using get_color_ptr[OF Ry] ub by simp
  from left_rotate_tree[OF Rg] obtain m1 where
    s1: "left_rotate m (Some p) = Some m1" and e1: "m1 = m\<lparr>root := root m1, nodes := nodes m1\<rparr>"
    and R1: "repr_map m1 (plug ?F (Node (Node sp p RB_RED kp vp l) z c k v r))" by blast
  have R1p: "repr_map m1 (plug (Frame Lft z c k v r # ?F) (Node sp p RB_RED kp vp l))" using R1 by simp
  have pz1: "fetch m1 (Some p) parent = Some (Some z)" using node_fetch(1)[OF R1p] by simp
  from set_color_tree[OF R1, of RB_BLACK] obtain m2 where
    s2: "set_color (Some z) RB_BLACK m1 = Some m2" and e2: "m2 = m1\<lparr>root := root m2, nodes := nodes m2\<rparr>"
    and R2: "repr_map m2 (plug ?F (Node (Node sp p RB_RED kp vp l) z RB_BLACK k v r))" by blast
  have zg1: "fetch m1 (Some z) parent = Some (Some g)" using node_fetch(1)[OF R1] by simp
  have pz2: "fetch m2 (Some p) parent = Some (Some z)" and zg2: "fetch m2 (Some z) parent = Some (Some g)"
    using set_color_fetch(1)[OF s2] pz1 zg1 by (simp_all del: fetch_Some)
  from set_color_frame[OF R2, of RB_RED] obtain m3 where
    s3: "set_color (Some g) RB_RED m2 = Some m3" and e3: "m3 = m2\<lparr>root := root m3, nodes := nodes m3\<rparr>"
    and R3: "repr_map m3 (plug (Frame Lft g RB_RED kg vg u # fs) (Node (Node sp p RB_RED kp vp l) z RB_BLACK k v r))"
    by blast
  have pz3: "fetch m3 (Some p) parent = Some (Some z)" and zg3: "fetch m3 (Some z) parent = Some (Some g)"
    using set_color_fetch(1)[OF s3] pz2 zg2 by (simp_all del: fetch_Some)
  have R3': "repr_map m3 (plug fs (Node (Node (Node sp p RB_RED kp vp l) z RB_BLACK k v r) g RB_RED kg vg u))"
    using R3 by simp
  from right_rotate_tree[OF R3'] obtain m4 where
    s4: "right_rotate m3 (Some g) = Some m4" and e4: "m4 = m3\<lparr>root := root m4, nodes := nodes m4\<rparr>"
    and R4: "repr_map m4 (plug fs (Node (Node sp p RB_RED kp vp l) z RB_BLACK k v (Node r g RB_RED kg vg u)))"
    by blast
  have R4p: "repr_map m4 (plug (Frame Lft z RB_BLACK k v (Node r g RB_RED kg vg u) # fs) (Node sp p RB_RED kp vp l))"
    using R4 by simp
  have ex: "insert_fixup_loop m4 (Some p) = Some m4" by (rule insert_fixup_exit_black[OF R4p])
  have "insert_fixup_loop m (Some z) = Some m4"
    by (subst insert_fixup_loop.simps)
       (simp del: fetch_Some get_color_Some add: zp pc pp pr gl gr yc s1 s2 s3 s4 pz1 pz2 zg2 pz3 zg3 ex)
  moreover have "m4 = m\<lparr>root := root m4, nodes := nodes m4\<rparr>"
    using same_rest_trans[OF same_rest_trans[OF same_rest_trans[OF e1 e2] e3] e4] .
  ultimately show ?thesis using R4 by blast
qed

lemma insert_fixup_rotate_right_outer:
  assumes R: "repr_map m (plug (Frame Rgt p RB_RED kp vp sp # Frame Rgt g cg kg vg u # fs) (Node l z c k v r))"
    and ub: "color_of u = RB_BLACK"
  shows "\<exists>m'. insert_fixup_loop m (Some z) = Some m' \<and>
      m' = m\<lparr>root := root m', nodes := nodes m'\<rparr> \<and>
      repr_map m' (plug fs (Node (Node u g RB_RED kg vg sp) p RB_BLACK kp vp (Node l z c k v r)))"
proof -
  let ?zs = "Node l z c k v r"
  have d: "distinct (addrs (plug (Frame Rgt p RB_RED kp vp sp # Frame Rgt g cg kg vg u # fs) ?zs))"
    using R by (simp add: repr_map_def)
  have zp: "fetch m (Some z) parent = Some (Some p)" using node_fetch(1)[OF R] by simp
  have pc: "get_color m (Some p) = Some RB_RED" and pp: "fetch m (Some p) parent = Some (Some g)"
    and pl: "fetch m (Some p) left = Some (ptr sp)"
    using frame_fetch[OF R] by simp_all
  have zsp: "Some z \<noteq> ptr sp"
    using sibling_ptr_neq[OF d, of z] by auto
  have Rg: "repr_map m (plug (Frame Rgt g cg kg vg u # fs) (Node sp p RB_RED kp vp ?zs))" using R by simp
  have gl: "fetch m (Some g) left = Some (ptr u)"
    using frame_fetch[OF Rg] by simp_all
  have pu: "Some p \<noteq> ptr u"
    using sibling_ptr_neq[of Rgt g cg kg vg u fs "Node sp p RB_RED kp vp ?zs" p] Rg by (auto simp: repr_map_def)
  have Ry: "repr_map m (plug (Frame Lft g cg kg vg (Node sp p RB_RED kp vp ?zs) # fs) u)" using R by simp
  have yc: "get_color m (ptr u) = Some RB_BLACK" using get_color_ptr[OF Ry] ub by simp
  from set_color_frame[OF R, of RB_BLACK] obtain m1 where
    s1: "set_color (Some p) RB_BLACK m = Some m1" and e1: "m1 = m\<lparr>root := root m1, nodes := nodes m1\<rparr>"
    and R1: "repr_map m1 (plug (Frame Rgt p RB_BLACK kp vp sp # Frame Rgt g cg kg vg u # fs) ?zs)" by blast
  have R1g: "repr_map m1 (plug (Frame Rgt g cg kg vg u # fs) (Node sp p RB_BLACK kp vp ?zs))" using R1 by simp
  from set_color_frame[OF R1g, of RB_RED] obtain m2 where
    s2: "set_color (Some g) RB_RED m1 = Some m2" and e2: "m2 = m1\<lparr>root := root m2, nodes := nodes m2\<rparr>"
    and R2: "repr_map m2 (plug (Frame Rgt g RB_RED kg vg u # fs) (Node sp p RB_BLACK kp vp ?zs))" by blast
  have R2': "repr_map m2 (plug fs (Node u g RB_RED kg vg (Node sp p RB_BLACK kp vp ?zs)))" using R2 by simp
  from left_rotate_tree[OF R2'] obtain m3 where
    s3: "left_rotate m2 (Some g) = Some m3" and e3: "m3 = m2\<lparr>root := root m3, nodes := nodes m3\<rparr>"
    and R3: "repr_map m3 (plug fs (Node (Node u g RB_RED kg vg sp) p RB_BLACK kp vp ?zs))" by blast
  have zp1: "fetch m1 (Some z) parent = Some (Some p)" and pp1: "fetch m1 (Some p) parent = Some (Some g)"
    using set_color_fetch(1)[OF s1] zp pp by (simp_all del: fetch_Some)
  have zp2: "fetch m2 (Some z) parent = Some (Some p)" and pp2: "fetch m2 (Some p) parent = Some (Some g)"
    using set_color_fetch(1)[OF s2] zp1 pp1 by (simp_all del: fetch_Some)
  have R3z: "repr_map m3 (plug (Frame Rgt p RB_BLACK kp vp (Node u g RB_RED kg vg sp) # fs) ?zs)"
    using R3 by simp
  have ex: "insert_fixup_loop m3 (Some z) = Some m3" by (rule insert_fixup_exit_black[OF R3z])
  have "insert_fixup_loop m (Some z) = Some m3"
    by (subst insert_fixup_loop.simps)
       (simp del: fetch_Some get_color_Some add: zp pc pp pl zsp gl pu yc s1 s2 s3 zp1 pp1 zp2 pp2 ex)
  moreover have "m3 = m\<lparr>root := root m3, nodes := nodes m3\<rparr>"
    using same_rest_trans[OF same_rest_trans[OF e1 e2] e3] .
  ultimately show ?thesis using R3 by blast
qed

lemma insert_fixup_rotate_right_inner:
  assumes R: "repr_map m (plug (Frame Lft p RB_RED kp vp sp # Frame Rgt g cg kg vg u # fs) (Node l z c k v r))"
    and ub: "color_of u = RB_BLACK"
  shows "\<exists>m'. insert_fixup_loop m (Some z) = Some m' \<and>
      m' = m\<lparr>root := root m', nodes := nodes m'\<rparr> \<and>
      repr_map m' (plug fs (Node (Node u g RB_RED kg vg l) z RB_BLACK k v (Node r p RB_RED kp vp sp)))"
proof -
  let ?zs = "Node l z c k v r"
  let ?F = "Frame Rgt g cg kg vg u # fs"
  have zp: "fetch m (Some z) parent = Some (Some p)" using node_fetch(1)[OF R] by simp
  have pc: "get_color m (Some p) = Some RB_RED" and pp: "fetch m (Some p) parent = Some (Some g)"
    and pl: "fetch m (Some p) left = Some (Some z)"
    using frame_fetch[OF R] by simp_all
  have Rg: "repr_map m (plug ?F (Node ?zs p RB_RED kp vp sp))" using R by simp
  have gl: "fetch m (Some g) left = Some (ptr u)"
    using frame_fetch[OF Rg] by simp_all
  have pu: "Some p \<noteq> ptr u"
    using sibling_ptr_neq[of Rgt g cg kg vg u fs "Node ?zs p RB_RED kp vp sp" p] Rg by (auto simp: repr_map_def)
  have Ry: "repr_map m (plug (Frame Lft g cg kg vg (Node ?zs p RB_RED kp vp sp) # fs) u)" using R by simp
  have yc: "get_color m (ptr u) = Some RB_BLACK" using get_color_ptr[OF Ry] ub by simp
  from right_rotate_tree[OF Rg] obtain m1 where
    s1: "right_rotate m (Some p) = Some m1" and e1: "m1 = m\<lparr>root := root m1, nodes := nodes m1\<rparr>"
    and R1: "repr_map m1 (plug ?F (Node l z c k v (Node r p RB_RED kp vp sp)))" by blast
  have R1p: "repr_map m1 (plug (Frame Rgt z c k v l # ?F) (Node r p RB_RED kp vp sp))" using R1 by simp
  have pz1: "fetch m1 (Some p) parent = Some (Some z)" using node_fetch(1)[OF R1p] by simp
  from set_color_tree[OF R1, of RB_BLACK] obtain m2 where
    s2: "set_color (Some z) RB_BLACK m1 = Some m2" and e2: "m2 = m1\<lparr>root := root m2, nodes := nodes m2\<rparr>"
    and R2: "repr_map m2 (plug ?F (Node l z RB_BLACK k v (Node r p RB_RED kp vp sp)))" by blast
  have zg1: "fetch m1 (Some z) parent = Some (Some g)" using node_fetch(1)[OF R1] by simp
  have pz2: "fetch m2 (Some p) parent = Some (Some z)" and zg2: "fetch m2 (Some z) parent = Some (Some g)"
    using set_color_fetch(1)[OF s2] pz1 zg1 by (simp_all del: fetch_Some)
  from set_color_frame[OF R2, of RB_RED] obtain m3 where
    s3: "set_color (Some g) RB_RED m2 = Some m3" and e3: "m3 = m2\<lparr>root := root m3, nodes := nodes m3\<rparr>"
    and R3: "repr_map m3 (plug (Frame Rgt g RB_RED kg vg u # fs) (Node l z RB_BLACK k v (Node r p RB_RED kp vp sp)))"
    by blast
  have pz3: "fetch m3 (Some p) parent = Some (Some z)" and zg3: "fetch m3 (Some z) parent = Some (Some g)"
    using set_color_fetch(1)[OF s3] pz2 zg2 by (simp_all del: fetch_Some)
  have R3': "repr_map m3 (plug fs (Node u g RB_RED kg vg (Node l z RB_BLACK k v (Node r p RB_RED kp vp sp))))"
    using R3 by simp
  from left_rotate_tree[OF R3'] obtain m4 where
    s4: "left_rotate m3 (Some g) = Some m4" and e4: "m4 = m3\<lparr>root := root m4, nodes := nodes m4\<rparr>"
    and R4: "repr_map m4 (plug fs (Node (Node u g RB_RED kg vg l) z RB_BLACK k v (Node r p RB_RED kp vp sp)))"
    by blast
  have R4p: "repr_map m4 (plug (Frame Rgt z RB_BLACK k v (Node u g RB_RED kg vg l) # fs) (Node r p RB_RED kp vp sp))"
    using R4 by simp
  have ex: "insert_fixup_loop m4 (Some p) = Some m4" by (rule insert_fixup_exit_black[OF R4p])
  have "insert_fixup_loop m (Some z) = Some m4"
    by (subst insert_fixup_loop.simps)
       (simp del: fetch_Some get_color_Some add: zp pc pp pl gl pu yc s1 s2 s3 s4 pz1 pz2 zg2 pz3 zg3 ex)
  moreover have "m4 = m\<lparr>root := root m4, nodes := nodes m4\<rparr>"
    using same_rest_trans[OF same_rest_trans[OF same_rest_trans[OF e1 e2] e3] e4] .
  ultimately show ?thesis using R4 by blast
qed


lemma color_of_red: "color_of u = RB_RED \<Longrightarrow> \<exists>ul y ky vy ur. u = Node ul y RB_RED ky vy ur"
  by (cases u) auto

lemma color_cases: "c = RB_RED \<or> c = RB_BLACK"
  by (cases c) auto

lemma insert_fixup_loop_spec:
  assumes "repr_map m (plug fs (Node l z RB_RED k v r))"
    and "fs \<noteq> [] \<Longrightarrow> fcolor (last fs) = RB_BLACK"
    and "is_sub (Node Leaf a RB_RED k0 v0 Leaf) (Node l z RB_RED k v r)"
  shows "\<exists>m' t'. insert_fixup_loop m (Some z) = Some m' \<and> m' = m\<lparr>root := root m', nodes := nodes m'\<rparr> \<and>
      repr_map m' t' \<and> inorder t' = inorder (plug fs (Node l z RB_RED k v r)) \<and>
      (\<exists>s. easy_at a s \<and> is_sub s t')"
  using assms
proof (induction "length fs" arbitrary: fs m l z k v r rule: less_induct)
  case less
  let ?zs = "Node l z RB_RED k v r"
  let ?N = "Node Leaf a RB_RED k0 v0 Leaf"
  note R = less.prems(1) and sub = less.prems(3)
  have eN: "easy_at a ?N" by simp
  have same: "m = m\<lparr>root := root m, nodes := nodes m\<rparr>" by simp
  show ?case
  proof (cases fs)
    case Nil
    have "insert_fixup_loop m (Some z) = Some m" using insert_fixup_exit_root[of m l z RB_RED k v r] R Nil by simp
    moreover have "repr_map m ?zs" using R Nil by simp
    ultimately show ?thesis using Nil same eN sub by (metis plug.simps(1))
  next
    case (Cons f1 fs1)
    obtain d1 p cp kp vp sp where f1: "f1 = Frame d1 p cp kp vp sp" by (cases f1)
    show ?thesis
    proof (cases cp)
      case RB_BLACK
      have "insert_fixup_loop m (Some z) = Some m"
        using insert_fixup_exit_black[of m d1 p kp vp sp fs1 l z RB_RED k v r] R Cons f1 RB_BLACK by simp
      moreover have "is_sub ?N (plug fs ?zs)" using sub by (rule is_sub_plug)
      ultimately show ?thesis using R same eN by blast
    next
      case RB_RED
      have "fs1 \<noteq> []"
      proof
        assume "fs1 = []"
        with less.prems(2) Cons f1 RB_RED show False by simp
      qed
      then obtain f2 fs2 where fs1: "fs1 = f2 # fs2" by (cases fs1) auto
      obtain d2 g cg kg vg u where f2: "f2 = Frame d2 g cg kg vg u" by (cases f2)
      have fs: "fs = Frame d1 p RB_RED kp vp sp # Frame d2 g cg kg vg u # fs2"
        using Cons f1 fs1 f2 RB_RED by simp
      have len: "length fs2 < length fs" using fs by simp
      have lastb: "fs2 \<noteq> [] \<Longrightarrow> fcolor (last fs2) = RB_BLACK"
        using less.prems(2) fs by simp
      show ?thesis
      proof (cases "color_of u")
        case ured: RB_RED
        then obtain ul y ky vy ur where u: "u = Node ul y RB_RED ky vy ur" using color_of_red by blast
        let ?f1b = "Frame d1 p RB_BLACK kp vp sp"
        let ?ub = "Node ul y RB_BLACK ky vy ur"
        show ?thesis
        proof (cases d2)
          case Lft
          from insert_fixup_recolor_left[of m d1 p kp vp sp g cg kg vg ul y ky vy ur fs2 l z RB_RED k v r]
            R fs u Lft
          obtain m3 where st: "insert_fixup_loop m (Some z) = insert_fixup_loop m3 (Some g)"
            and e: "m3 = m\<lparr>root := root m3, nodes := nodes m3\<rparr>"
            and R3: "repr_map m3 (plug fs2 (Node (fill ?f1b ?zs) g RB_RED kg vg ?ub))" by auto
          have s3: "is_sub ?N (Node (fill ?f1b ?zs) g RB_RED kg vg ?ub)"
            using is_sub_fill[OF sub, of ?f1b] by simp
          from less.hyps[OF len R3 lastb s3] obtain m' t' where
            r: "insert_fixup_loop m3 (Some g) = Some m'" "m' = m3\<lparr>root := root m', nodes := nodes m'\<rparr>"
              "repr_map m' t'" "inorder t' = inorder (plug fs2 (Node (fill ?f1b ?zs) g RB_RED kg vg ?ub))"
              "\<exists>s. easy_at a s \<and> is_sub s t'" by blast
          have "inorder t' = inorder (plug fs ?zs)"
            using r(4) fs u Lft by (simp add: inorder_plug inorder_fill)
          moreover have "m' = m\<lparr>root := root m', nodes := nodes m'\<rparr>"
            using same_rest_trans[OF e r(2)] .
          ultimately show ?thesis using st r by auto
        next
          case Rgt
          from insert_fixup_recolor_right[of m d1 p kp vp sp g cg kg vg ul y ky vy ur fs2 l z RB_RED k v r]
            R fs u Rgt
          obtain m3 where st: "insert_fixup_loop m (Some z) = insert_fixup_loop m3 (Some g)"
            and e: "m3 = m\<lparr>root := root m3, nodes := nodes m3\<rparr>"
            and R3: "repr_map m3 (plug fs2 (Node ?ub g RB_RED kg vg (fill ?f1b ?zs)))" by auto
          have s3: "is_sub ?N (Node ?ub g RB_RED kg vg (fill ?f1b ?zs))"
            using is_sub_fill[OF sub, of ?f1b] by simp
          from less.hyps[OF len R3 lastb s3] obtain m' t' where
            r: "insert_fixup_loop m3 (Some g) = Some m'" "m' = m3\<lparr>root := root m', nodes := nodes m'\<rparr>"
              "repr_map m' t'" "inorder t' = inorder (plug fs2 (Node ?ub g RB_RED kg vg (fill ?f1b ?zs)))"
              "\<exists>s. easy_at a s \<and> is_sub s t'" by blast
          have "inorder t' = inorder (plug fs ?zs)"
            using r(4) fs u Rgt by (simp add: inorder_plug inorder_fill)
          moreover have "m' = m\<lparr>root := root m', nodes := nodes m'\<rparr>"
            using same_rest_trans[OF e r(2)] .
          ultimately show ?thesis using st r by auto
        qed
      next
        case ub: RB_BLACK
        have subc: "?N = ?zs \<or> is_sub ?N l \<or> is_sub ?N r" using sub by simp
        show ?thesis
        proof (cases d2; cases d1)
          assume d: "d2 = Lft" "d1 = Lft"
          let ?t = "plug fs2 (Node ?zs p RB_BLACK kp vp (Node sp g RB_RED kg vg u))"
          from insert_fixup_rotate_left_outer[of m p kp vp sp g cg kg vg u fs2 l z RB_RED k v r] R fs d ub
          obtain m' where r: "insert_fixup_loop m (Some z) = Some m'" "m' = m\<lparr>root := root m', nodes := nodes m'\<rparr>"
            "repr_map m' ?t" by auto
          have "inorder ?t = inorder (plug fs ?zs)" using fs d by (simp add: inorder_plug)
          moreover have "is_sub ?N ?t" by (rule is_sub_plug) (use sub in simp)
          ultimately show ?thesis using r eN by blast
        next
          assume d: "d2 = Lft" "d1 = Rgt"
          let ?s = "Node (Node sp p RB_RED kp vp l) z RB_BLACK k v (Node r g RB_RED kg vg u)"
          let ?t = "plug fs2 ?s"
          from insert_fixup_rotate_left_inner[of m p kp vp sp g cg kg vg u fs2 l z RB_RED k v r] R fs d ub
          obtain m' where r: "insert_fixup_loop m (Some z) = Some m'" "m' = m\<lparr>root := root m', nodes := nodes m'\<rparr>"
            "repr_map m' ?t" by auto
          have io: "inorder ?t = inorder (plug fs ?zs)" using fs d by (simp add: inorder_plug)
          have "\<exists>s. easy_at a s \<and> is_sub s ?t"
          proof -
            from subc consider "?N = ?zs" | "is_sub ?N l" | "is_sub ?N r" by blast
            then show ?thesis
            proof cases
              case 1
              then have "easy_at a ?s" by simp
              moreover have "is_sub ?s ?t" by (rule is_sub_plug) simp
              ultimately show ?thesis by blast
            next
              case 2
              have "is_sub ?N ?t" by (rule is_sub_plug) (use 2 in simp)
              with eN show ?thesis by blast
            next
              case 3
              have "is_sub ?N ?t" by (rule is_sub_plug) (use 3 in simp)
              with eN show ?thesis by blast
            qed
          qed
          with r io show ?thesis by blast
        next
          assume d: "d2 = Rgt" "d1 = Lft"
          let ?s = "Node (Node u g RB_RED kg vg l) z RB_BLACK k v (Node r p RB_RED kp vp sp)"
          let ?t = "plug fs2 ?s"
          from insert_fixup_rotate_right_inner[of m p kp vp sp g cg kg vg u fs2 l z RB_RED k v r] R fs d ub
          obtain m' where r: "insert_fixup_loop m (Some z) = Some m'" "m' = m\<lparr>root := root m', nodes := nodes m'\<rparr>"
            "repr_map m' ?t" by auto
          have io: "inorder ?t = inorder (plug fs ?zs)" using fs d by (simp add: inorder_plug)
          have "\<exists>s. easy_at a s \<and> is_sub s ?t"
          proof -
            from subc consider "?N = ?zs" | "is_sub ?N l" | "is_sub ?N r" by blast
            then show ?thesis
            proof cases
              case 1
              then have "easy_at a ?s" by simp
              moreover have "is_sub ?s ?t" by (rule is_sub_plug) simp
              ultimately show ?thesis by blast
            next
              case 2
              have "is_sub ?N ?t" by (rule is_sub_plug) (use 2 in simp)
              with eN show ?thesis by blast
            next
              case 3
              have "is_sub ?N ?t" by (rule is_sub_plug) (use 3 in simp)
              with eN show ?thesis by blast
            qed
          qed
          with r io show ?thesis by blast
        next
          assume d: "d2 = Rgt" "d1 = Rgt"
          let ?t = "plug fs2 (Node (Node u g RB_RED kg vg sp) p RB_BLACK kp vp ?zs)"
          from insert_fixup_rotate_right_outer[of m p kp vp sp g cg kg vg u fs2 l z RB_RED k v r] R fs d ub
          obtain m' where r: "insert_fixup_loop m (Some z) = Some m'" "m' = m\<lparr>root := root m', nodes := nodes m'\<rparr>"
            "repr_map m' ?t" by auto
          have "inorder ?t = inorder (plug fs ?zs)" using fs d by (simp add: inorder_plug)
          moreover have "is_sub ?N ?t" by (rule is_sub_plug) (use sub in simp)
          ultimately show ?thesis using r eN by blast
        qed
      qed
    qed
  qed
qed


section \<open>Insertion of a new binding\<close>

lemma easy_blacken: "easy_at a s \<Longrightarrow> is_sub s t \<Longrightarrow> \<exists>s'. easy_at a s' \<and> is_sub s' (blacken t)"
proof (cases t)
  case Leaf
  assume "easy_at a s" "is_sub s t"
  with Leaf show ?thesis by simp
next
  case (Node l b c k v r)
  assume e: "easy_at a s" and s: "is_sub s t"
  from s Node consider "s = Node l b c k v r" | "is_sub s l" | "is_sub s r" by auto
  then show ?thesis
  proof cases
    case 1
    with e have "easy_at a (Node l b RB_BLACK k v r)" by simp
    then show ?thesis using Node by (intro exI[of _ "Node l b RB_BLACK k v r"]) simp
  next
    case 2
    with e Node show ?thesis by (intro exI[of _ s]) simp
  next
    case 3
    with e Node show ?thesis by (intro exI[of _ s]) simp
  qed
qed

lemma inorder_blacken [simp]: "inorder (blacken t) = inorder t"
  by (cases t) auto

lemma root_black_blacken [simp]: "root_black (blacken t)"
  by (cases t) (auto simp: root_black_def)

lemma insert_fixup_spec:
  assumes "repr_map m (plug fs (Node l z RB_RED k v r))"
    and "fs \<noteq> [] \<Longrightarrow> fcolor (last fs) = RB_BLACK"
    and "is_sub (Node Leaf a RB_RED k0 v0 Leaf) (Node l z RB_RED k v r)"
  shows "\<exists>m' t'. insert_fixup m (Some z) = Some m' \<and> m' = m\<lparr>root := root m', nodes := nodes m'\<rparr> \<and>
      repr_map m' t' \<and> root_black t' \<and> inorder t' = inorder (plug fs (Node l z RB_RED k v r)) \<and>
      (\<exists>s. easy_at a s \<and> is_sub s t')"
proof -
  from insert_fixup_loop_spec[OF assms] obtain m1 t1 where
    l: "insert_fixup_loop m (Some z) = Some m1" and e1: "m1 = m\<lparr>root := root m1, nodes := nodes m1\<rparr>"
    and R1: "repr_map m1 t1" and io: "inorder t1 = inorder (plug fs (Node l z RB_RED k v r))"
    and ea: "\<exists>s. easy_at a s \<and> is_sub s t1" by blast
  have "\<exists>m2. set_color (root m1) RB_BLACK m1 = Some m2 \<and> m2 = m1\<lparr>root := root m2, nodes := nodes m2\<rparr> \<and>
      repr_map m2 (blacken t1)"
  proof (cases t1)
    case Leaf
    with R1 show ?thesis by (simp add: repr_map_def)
  next
    case (Node l1 b c1 k1 v1 r1)
    with R1 have rt: "root m1 = Some b" by (simp add: repr_map_def)
    from set_color_tree[of m1 "[]" l1 b c1 k1 v1 r1 RB_BLACK] R1 Node rt show ?thesis by simp
  qed
  then obtain m2 where s: "set_color (root m1) RB_BLACK m1 = Some m2"
    and e2: "m2 = m1\<lparr>root := root m2, nodes := nodes m2\<rparr>" and R2: "repr_map m2 (blacken t1)" by blast
  have "insert_fixup m (Some z) = Some m2" by (simp add: insert_fixup_def l s)
  moreover have "m2 = m\<lparr>root := root m2, nodes := nodes m2\<rparr>" using same_rest_trans[OF e1 e2] .
  moreover have "\<exists>s. easy_at a s \<and> is_sub s (blacken t1)" using ea easy_blacken by blast
  ultimately show ?thesis using R2 io by (intro exI[of _ m2] exI[of _ "blacken t1"]) simp
qed

lemma tree_height_total: "repr (nodes m) par t \<Longrightarrow> \<exists>h. tree_height m (ptr t) = Some h"
proof (induction t arbitrary: par)
  case Leaf
  show ?case by (subst tree_height.simps) simp
next
  case (Node l a c k v r)
  from Node.prems have n: "nodes m a = Some (mk_node par l c k v r)" by simp
  from Node obtain hl hr where "tree_height m (ptr l) = Some hl" "tree_height m (ptr r) = Some hr"
    by fastforce
  then show ?case
    by (subst tree_height.simps) (simp add: n mk_node_def)
qed

lemma create_node_Some:
  assumes "create_node k v cfg m = (Some a, m1)"
  shows "a = next_addr m \<and>
    (\<exists>nk nv. stored_key cfg k = Some nk \<and> stored_value cfg v = Some nv \<and>
       nodes m1 = (nodes m)(a \<mapsto> \<lparr>key = nk, val = nv, parent = None, left = None, right = None, color = RB_RED\<rparr>)) \<and>
    root m1 = root m \<and> msize m1 = msize m \<and> config m1 = config m \<and> next_addr m1 = Suc a \<and>
    stats_enabled m1 = stats_enabled m \<and> avail m1 \<le> avail m"
  using assms
  by (auto simp: create_node_def Let_def stored_key_def stored_value_def
      split: if_splits option.splits prod.splits)

lemma create_node_None:
  assumes "create_node k v cfg m = (None, m1)"
  shows "nodes m1 = nodes m \<and> root m1 = root m \<and> msize m1 = msize m \<and> config m1 = config m"
  using assms
  by (auto simp: create_node_def Let_def split: if_splits option.splits prod.splits)

lemma plug_path_to: "plug (path_to cmp x t fs) Leaf = plug fs t"
  by (induction t arbitrary: fs) auto

lemma path_to_top:
  "path_to cmp x t fs = Frame d p c k v s # gs \<Longrightarrow>
   path_to cmp x t fs = fs \<or> (d = Lft) = (cmp x k < 0)"
proof (induction t arbitrary: fs)
  case Leaf
  then show ?case by simp
next
  case (Node l b cb kb vb r)
  show ?case
  proof (cases "cmp x kb < 0")
    case True
    with Node.prems have e: "path_to cmp x l (Frame Lft b cb kb vb r # fs) = Frame d p c k v s # gs" by simp
    from Node.IH(1)[OF e] e True show ?thesis by auto
  next
    case False
    with Node.prems have e: "path_to cmp x r (Frame Rgt b cb kb vb l # fs) = Frame d p c k v s # gs" by simp
    from Node.IH(2)[OF e] e False show ?thesis by auto
  qed
qed

lemma path_to_last:
  "fs \<noteq> [] \<Longrightarrow> path_to cmp x t fs \<noteq> [] \<and> last (path_to cmp x t fs) = last fs"
  by (induction t arbitrary: fs) auto

lemma path_to_last_root:
  "path_to cmp x (Node l a c k v r) [] \<noteq> [] \<and> fcolor (last (path_to cmp x (Node l a c k v r) [])) = c"
  using path_to_last[of "[Frame Lft a c k v r]" cmp x l] path_to_last[of "[Frame Rgt a c k v l]" cmp x r]
  by auto

lemma insert_descend_spec:
  assumes nk: "fetch m (Some a) key = Some nk"
  shows "repr (nodes m) None (plug fs t) \<Longrightarrow>
    insert_descend m cmp (Some a) (cpar fs) (ptr t) = Some (cpar (path_to cmp nk t fs))"
proof (induction t arbitrary: fs)
  case Leaf
  show ?case by (subst insert_descend.simps) simp
next
  case (Node l b c k v r)
  have n: "nodes m b = Some (mk_node (cpar fs) l c k v r)" using plug_node[OF Node.prems] .
  have l: "insert_descend m cmp (Some a) (Some b) (ptr l) = Some (cpar (path_to cmp nk l (Frame Lft b c k v r # fs)))"
    using Node.IH(1)[of "Frame Lft b c k v r # fs"] Node.prems by simp
  have r: "insert_descend m cmp (Some a) (Some b) (ptr r) = Some (cpar (path_to cmp nk r (Frame Rgt b c k v l # fs)))"
    using Node.IH(2)[of "Frame Rgt b c k v l # fs"] Node.prems by simp
  have kb: "fetch m (Some b) key = Some k" "fetch m (Some b) left = Some (ptr l)"
    "fetch m (Some b) right = Some (ptr r)" using n by (simp_all add: mk_node_def)
  show ?case
    by (subst insert_descend.simps) (simp del: fetch_Some add: nk kb l r)
qed


subsection \<open>The in-order sequence after linking a new node\<close>

lemma ins_list_append_lt:
  "cmp (fst (snd e)) (fst (snd b)) < 0 \<Longrightarrow> ins_list cmp e (ys @ b # rs) = ins_list cmp e ys @ b # rs"
  by (induction ys) auto

lemma ins_list_append_ge:
  "(\<And>y. y \<in> set ys \<Longrightarrow> \<not> cmp (fst (snd e)) (fst (snd y)) < 0) \<Longrightarrow> ins_list cmp e (ys @ zs) = ys @ ins_list cmp e zs"
  by (induction ys) auto

lemma set_ins_list [simp]: "set (ins_list cmp e xs) = insert e (set xs)"
  by (induction xs) auto

lemma ins_list_split: "\<exists>ys zs. xs = ys @ zs \<and> ins_list cmp e xs = ys @ e # zs"
proof (induction xs)
  case Nil
  show ?case by simp
next
  case (Cons x xs)
  show ?case
  proof (cases "cmp (fst (snd e)) (fst (snd x)) < 0")
    case True
    then have "x # xs = [] @ (x # xs) \<and> ins_list cmp e (x # xs) = [] @ e # (x # xs)" by simp
    then show ?thesis by blast
  next
    case False
    from Cons obtain ys zs where "xs = ys @ zs" "ins_list cmp e xs = ys @ e # zs" by blast
    with False have "x # xs = (x # ys) @ zs \<and> ins_list cmp e (x # xs) = (x # ys) @ e # zs" by simp
    then show ?thesis by blast
  qed
qed

lemma keys_of_inorder: "keys_of t = map (\<lambda>e. fst (snd e)) (inorder t)"
  by (induction t) auto

lemma bindings_of_inorder: "bindings_of t = map snd (inorder t)"
  by (simp add: bindings_of_def)

lemma sorted_keys_NodeD:
  assumes "sorted_wrt (\<lambda>x y. cmp x y < 0) (keys_of (Node l a c k v r))"
  shows "sorted_wrt (\<lambda>x y. cmp x y < 0) (keys_of l)" "sorted_wrt (\<lambda>x y. cmp x y < 0) (keys_of r)"
    "\<And>y. y \<in> set (keys_of l) \<Longrightarrow> cmp y k < 0"
  using assms by (auto simp: sorted_wrt_append)

lemma path_to_inorder:
  assumes ok: "comparator_ok cmp"
  shows "sorted_wrt (\<lambda>x y. cmp x y < 0) (keys_of t) \<Longrightarrow>
    ctx_before (path_to cmp x t fs) @ (a, x, w) # ctx_after (path_to cmp x t fs) =
    ctx_before fs @ ins_list cmp (a, x, w) (inorder t) @ ctx_after fs"
proof (induction t arbitrary: fs)
  case Leaf
  show ?case by simp
next
  case (Node l b c k v r)
  note s = sorted_keys_NodeD[OF Node.prems]
  show ?case
  proof (cases "cmp x k < 0")
    case True
    have "ins_list cmp (a, x, w) (inorder l @ (b, k, v) # inorder r) =
        ins_list cmp (a, x, w) (inorder l) @ (b, k, v) # inorder r"
      using True by (intro ins_list_append_lt) simp
    with True Node.IH(1)[OF s(1), of "Frame Lft b c k v r # fs"] show ?thesis by simp
  next
    case False
    have "\<not> cmp x (fst (snd y)) < 0" if "y \<in> set (inorder l)" for y
    proof
      assume lt: "cmp x (fst (snd y)) < 0"
      from that have "fst (snd y) \<in> set (keys_of l)" by (auto simp: keys_of_inorder)
      then have "cmp (fst (snd y)) k < 0" by (rule s(3))
      with lt have "cmp x k < 0" by (rule cmp_lt_trans[OF ok])
      with False show False by simp
    qed
    then have "ins_list cmp (a, x, w) (inorder l @ (b, k, v) # inorder r) =
        inorder l @ ins_list cmp (a, x, w) ((b, k, v) # inorder r)"
      by (intro ins_list_append_ge) simp
    with False Node.IH(2)[OF s(2), of "Frame Rgt b c k v l # fs"] show ?thesis by simp
  qed
qed

lemma inorder_attach:
  assumes "comparator_ok cmp" "sorted_wrt (\<lambda>x y. cmp x y < 0) (keys_of t)"
  shows "inorder (plug (path_to cmp x t []) (Node Leaf a c x w Leaf)) = ins_list cmp (a, x, w) (inorder t)"
  using path_to_inorder[OF assms, of x "[]" a w] by (simp add: inorder_plug)

lemma sorted_ins_list:
  assumes ok: "comparator_ok cmp"
  shows "sorted_wrt (\<lambda>x y. cmp x y < 0) (map (\<lambda>e. fst (snd e)) xs) \<Longrightarrow>
    (\<And>y. y \<in> set xs \<Longrightarrow> cmp (fst (snd e)) (fst (snd y)) \<noteq> 0) \<Longrightarrow>
    sorted_wrt (\<lambda>x y. cmp x y < 0) (map (\<lambda>e. fst (snd e)) (ins_list cmp e xs))"
proof (induction xs)
  case Nil
  show ?case by simp
next
  case (Cons x xs)
  show ?case
  proof (cases "cmp (fst (snd e)) (fst (snd x)) < 0")
    case True
    have "cmp (fst (snd e)) (fst (snd y)) < 0" if "y \<in> set xs" for y
    proof -
      from Cons.prems(1) that have "cmp (fst (snd x)) (fst (snd y)) < 0" by auto
      with True show ?thesis by (rule cmp_lt_trans[OF ok])
    qed
    with True Cons.prems(1) show ?thesis by auto
  next
    case False
    from Cons.prems(2)[of x] have ne: "cmp (fst (snd e)) (fst (snd x)) \<noteq> 0" by simp
    with False have "cmp (fst (snd e)) (fst (snd x)) > 0" by simp
    then have lt: "cmp (fst (snd x)) (fst (snd e)) < 0" using cmp_gt_iff[OF ok] by simp
    have ih: "sorted_wrt (\<lambda>x y. cmp x y < 0) (map (\<lambda>e. fst (snd e)) (ins_list cmp e xs))"
      using Cons.IH Cons.prems by simp
    from lt Cons.prems(1) have "\<And>y. y \<in> set (ins_list cmp e xs) \<Longrightarrow> cmp (fst (snd x)) (fst (snd y)) < 0"
      by auto
    with False ih show ?thesis by auto
  qed
qed

lemma cmp_eq_trans:
  assumes ok: "comparator_ok cmp" and "cmp a b = 0" "cmp b c = 0"
  shows "cmp a c = 0"
proof -
  from assms(2,3) have "cmp a c \<le> 0" using cmp_le_trans[OF ok, of a b c] by simp
  moreover from assms(2,3) have "cmp c b = 0" "cmp b a = 0" using cmp_eq_sym[OF ok] by auto
  then have "cmp c a \<le> 0" using cmp_le_trans[OF ok, of c b a] by simp
  then have "\<not> cmp a c < 0" using cmp_swap[OF ok, of a c] by simp
  ultimately show ?thesis by simp
qed

lemma lookup_None_iff: "lookup cmp x bs = None \<longleftrightarrow> (\<forall>(k, v) \<in> set bs. cmp x k \<noteq> 0)"
  by (auto simp: lookup_def find_None_iff)


subsection \<open>Linking the new node below the position the descent ends at\<close>

lemma attach_new:
  assumes R: "repr_map m0 T" and fresh: "a \<notin> set (addrs T)"
    and n1: "nodes m1 = (nodes m0)(a \<mapsto> \<lparr>key = nk, val = nv, parent = None, left = None, right = None, color = RB_RED\<rparr>)"
    and r1: "root m1 = root m0"
    and gs: "gs = path_to cmp nk T []"
  shows "\<exists>m1' m2. set_parent (Some a) (cpar gs) m1 = Some m1' \<and>
      (if cpar gs = None then Some (m1'\<lparr>root := Some a\<rparr>)
       else do {
         nk \<leftarrow> fetch m1' (Some a) key;
         yk \<leftarrow> fetch m1' (cpar gs) key;
         if cmp nk yk < 0 then set_left (cpar gs) (Some a) m1' else set_right (cpar gs) (Some a) m1'
       }) = Some m2 \<and>
      m2 = m1\<lparr>root := root m2, nodes := nodes m2\<rparr> \<and>
      repr_map m2 (plug gs (Node Leaf a RB_RED nk nv Leaf))"
proof -
  let ?N = "Node Leaf a RB_RED nk nv Leaf"
  have T: "T = plug gs Leaf" using gs by (simp add: plug_path_to)
  from R have r0: "repr (nodes m0) None T" and d0: "distinct (addrs T)" and rt0: "root m0 = ptr T"
    by (auto simp: repr_map_def)
  have sp: "set_parent (Some a) q m1 =
      Some (m1\<lparr>nodes := (nodes m1)(a \<mapsto> \<lparr>key = nk, val = nv, parent = q, left = None, right = None, color = RB_RED\<rparr>)\<rparr>)" for q
    by (simp add: set_parent_def store_def n1)
  show ?thesis
  proof (cases gs)
    case Nil
    let ?m2 = "m1\<lparr>root := Some a, nodes := (nodes m1)(a \<mapsto> \<lparr>key = nk, val = nv, parent = None, left = None, right = None, color = RB_RED\<rparr>)\<rparr>"
    have "repr_map ?m2 (plug gs ?N)" using Nil by (simp add: repr_map_def mk_node_def)
    moreover have "?m2 = m1\<lparr>root := root ?m2, nodes := nodes ?m2\<rparr>" by simp
    ultimately show ?thesis using Nil sp[of None]
      by (intro exI[of _ "m1\<lparr>nodes := (nodes m1)(a \<mapsto> \<lparr>key = nk, val = nv, parent = None, left = None, right = None, color = RB_RED\<rparr>)\<rparr>"] exI[of _ ?m2]) simp
  next
    case (Cons f gs')
    obtain d p c k v s where f: "f = Frame d p c k v s" by (cases f) auto
    let ?np = "if d = Lft then mk_node (cpar gs') ?N c k v s else mk_node (cpar gs') s c k v ?N"
    let ?h2 = "\<lambda>q. if q = p then Some ?np
                   else if q = a then Some (mk_node (Some p) Leaf RB_RED nk nv Leaf) else nodes m0 q"
    let ?m2 = "m1\<lparr>root := root m1, nodes := ?h2\<rparr>"
    have dir: "(d = Lft) = (cmp nk k < 0)"
      using path_to_top[of cmp nk T "[]" d p c k v s gs'] gs Cons f by auto
    have rf: "repr (nodes m0) None (plug gs' (fill f Leaf))" using r0 T Cons by simp
    have hp: "nodes m0 p = Some (if d = Lft then mk_node (cpar gs') Leaf c k v s else mk_node (cpar gs') s c k v Leaf)"
    proof (cases d)
      case Lft
      with rf f show ?thesis using plug_node[of "nodes m0" gs' Leaf p c k v s] by simp
    next
      case Rgt
      with rf f show ?thesis using plug_node[of "nodes m0" gs' s p c k v Leaf] by simp
    qed
    have cp: "cpar gs = Some p" using Cons f by simp
    have pin: "p \<in> set (addrs T)" using T cpar_in_ctx[OF cp] by (simp add: set_addrs_plug)
    with fresh have pa: "p \<noteq> a" by auto
    let ?m1' = "m1\<lparr>nodes := (nodes m1)(a \<mapsto> \<lparr>key = nk, val = nv, parent = Some p, left = None, right = None, color = RB_RED\<rparr>)\<rparr>"
    have k1: "fetch ?m1' (Some a) key = Some nk" by simp
    have k2: "fetch ?m1' (Some p) key = Some k" using pa hp by (simp add: n1 mk_node_def)
    have st: "(if cmp nk k < 0 then set_left (Some p) (Some a) ?m1' else set_right (Some p) (Some a) ?m1') = Some ?m2"
    proof (cases "cmp nk k < 0")
      case True
      with dir have "d = Lft" by simp
      with True pa hp show ?thesis
        by (auto simp: set_left_def store_def n1 mk_node_def fun_eq_iff)
    next
      case False
      with dir have "d \<noteq> Lft" by simp
      with False pa hp show ?thesis
        by (auto simp: set_right_def store_def n1 mk_node_def fun_eq_iff)
    qed
    have run: "(if cpar gs = None then Some (?m1'\<lparr>root := Some a\<rparr>)
       else do {
         nk \<leftarrow> fetch ?m1' (Some a) key;
         yk \<leftarrow> fetch ?m1' (cpar gs) key;
         if cmp nk yk < 0 then set_left (cpar gs) (Some a) ?m1' else set_right (cpar gs) (Some a) ?m1'
       }) = Some ?m2"
      unfolding cp using k1 k2 st by (simp del: fetch_Some)
    have R': "repr_map m0 (plug gs Leaf)" using R T by simp
    have dctx: "distinct (ctx_addrs gs)" using d0 T distinct_plug_iff[of gs Leaf] by simp
    have actx: "a \<notin> set (ctx_addrs gs)" using fresh T by (simp add: set_addrs_plug)
    have new: "repr (nodes ?m2) (cpar gs) ?N" using pa cp by simp
    have dist: "distinct (addrs (plug gs ?N))"
      using dctx actx by (simp add: distinct_plug_iff)
    have ctx: "nodes ?m2 q = nodes m0 q" if "q \<in> set (ctx_addrs gs)" "cpar gs \<noteq> Some q" for q
      using that actx cp by auto
    have sfrm: "repr ?h2 (Some p) s"
    proof -
      have "repr (nodes m0) (cpar (f # gs')) Leaf \<and> repr (nodes m0) (Some p) s"
        using repr_plug_sub[OF rf] f by (cases d) auto
      then have rs: "repr (nodes m0) (Some p) s" by simp
      have "p \<notin> set (addrs s)" "a \<notin> set (addrs s)"
        using dctx actx Cons f by auto
      then have "\<And>q. q \<in> set (addrs s) \<Longrightarrow> ?h2 q = nodes m0 q" by auto
      from repr_frame[of s ?h2 "nodes m0" "Some p", OF this] rs show ?thesis by simp
    qed
    have top: "repr (nodes ?m2) (cpar fs') (fill f' ?N)" if "gs = f' # fs'" for f' fs'
    proof -
      from that Cons f have e: "f' = Frame d p c k v s" "fs' = gs'" by auto
      show ?thesis
        unfolding e using pa sfrm by (cases d) simp_all
    qed
    have rt: "root ?m2 = (if gs = [] then ptr ?N else root m0)" using Cons r1 by simp
    have "repr_map ?m2 (plug gs ?N)"
      by (rule repr_map_plug_replace_gen[OF R' new dist ctx top rt])
    moreover have "set_parent (Some a) (cpar gs) m1 = Some ?m1'" unfolding cp by (rule sp)
    moreover have "?m2 = m1\<lparr>root := root ?m2, nodes := nodes ?m2\<rparr>" by simp
    ultimately show ?thesis using run by blast
  qed
qed


subsection \<open>\<open>ordered_map_insert\<close> with a key the map does not hold\<close>

lemma same_rest_fields:
  assumes "m' = m\<lparr>root := root m', nodes := nodes m'\<rparr>"
  shows "config m' = config m" "msize m' = msize m" "stats_enabled m' = stats_enabled m"
    "next_addr m' = next_addr m" "avail m' = avail m" "stats m' = stats m" "trace m' = trace m"
proof -
  show "config m' = config m" using arg_cong[OF assms, of config] by simp
  show "msize m' = msize m" using arg_cong[OF assms, of msize] by simp
  show "stats_enabled m' = stats_enabled m" using arg_cong[OF assms, of stats_enabled] by simp
  show "next_addr m' = next_addr m" using arg_cong[OF assms, of next_addr] by simp
  show "avail m' = avail m" using arg_cong[OF assms, of avail] by simp
  show "stats m' = stats m" using arg_cong[OF assms, of stats] by simp
  show "trace m' = trace m" using arg_cong[OF assms, of trace] by simp
qed

lemma root_black_color: "root_black (Node l a c k v r) \<Longrightarrow> c = RB_BLACK"
  by (simp add: root_black_def)

lemma insert_new_run:
  assumes R: "repr_map m T" and alloc: "list_all (\<lambda>a. a < next_addr m) (addrs T)"
    and rb: "root_black T" and cmp: "key_compare (config m) = Some cmp"
    and ok: "comparator_ok cmp" and srt: "sorted_wrt (\<lambda>x y. cmp x y < 0) (keys_of T)"
    and absent: "lookup cmp k (bindings_of T) = None"
    and cn: "create_node k v (config m) m = (Some a, m1)"
  shows "\<exists>m' t' nk nv. ordered_map_insert (Some m) (Some k) (Some v) = Some (ORDERED_MAP_SUCCESS, Some m') \<and>
      stored_key (config m) k = Some nk \<and> stored_value (config m) v = Some nv \<and>
      repr_map m' t' \<and> root_black t' \<and> inorder t' = ins_list cmp (a, nk, nv) (inorder T) \<and>
      a = next_addr m \<and> next_addr m' = Suc a \<and> (\<exists>s. easy_at a s \<and> is_sub s t') \<and>
      msize m' = msize m + 1 \<and> config m' = config m \<and> avail m' \<le> avail m"
proof -
  from R have r0: "repr (nodes m) None T" and rt0: "root m = ptr T" by (auto simp: repr_map_def)
  have "root_val (find_node cmp k T) = None" using find_node_lookup[OF ok srt, of k] absent by simp
  then have "ptr (find_node cmp k T) = None" using find_node_ptr_val(2)[OF r0, of cmp k] by simp
  then have ts: "tree_search m (ptr T) k cmp = Some None" using tree_search_find[OF r0, of k cmp] by simp
  from create_node_Some[OF cn] obtain nk nv where a: "a = next_addr m"
    and sk: "stored_key (config m) k = Some nk" and sv: "stored_value (config m) v = Some nv"
    and n1: "nodes m1 = (nodes m)(a \<mapsto> \<lparr>key = nk, val = nv, parent = None, left = None, right = None, color = RB_RED\<rparr>)"
    and f1: "root m1 = root m" "msize m1 = msize m" "config m1 = config m" "next_addr m1 = Suc a"
      "stats_enabled m1 = stats_enabled m" "avail m1 \<le> avail m"
    by blast
  have fresh: "a \<notin> set (addrs T)" using alloc a by (auto simp: list_all_iff)
  define gs where "gs = path_to cmp nk T []"
  let ?N = "Node Leaf a RB_RED nk nv Leaf"
  have r1: "repr (nodes m1) None (plug [] T)" using r0 fresh by (simp add: n1)
  have k1: "fetch m1 (Some a) key = Some nk" by (simp add: n1)
  have d: "insert_descend m1 cmp (Some a) None (ptr T) = Some (cpar gs)"
    using insert_descend_spec[OF k1 r1, of cmp] by (simp add: gs_def)
  from attach_new[OF R fresh n1 f1(1) gs_def] obtain m1' m2 where
    sp: "set_parent (Some a) (cpar gs) m1 = Some m1'"
    and lk: "(if cpar gs = None then Some (m1'\<lparr>root := Some a\<rparr>)
       else do {
         nk \<leftarrow> fetch m1' (Some a) key;
         yk \<leftarrow> fetch m1' (cpar gs) key;
         if cmp nk yk < 0 then set_left (cpar gs) (Some a) m1' else set_right (cpar gs) (Some a) m1'
       }) = Some m2"
    and e2: "m2 = m1\<lparr>root := root m2, nodes := nodes m2\<rparr>"
    and R2: "repr_map m2 (plug gs ?N)" by blast
  have lastb: "fcolor (last gs) = RB_BLACK" if "gs \<noteq> []"
  proof (cases T)
    case Leaf
    with that show ?thesis by (simp add: gs_def)
  next
    case (Node l b c kb vb r)
    with rb have "c = RB_BLACK" by (simp add: root_black_color)
    with Node show ?thesis using path_to_last_root[of cmp nk l b c kb vb r] by (simp add: gs_def)
  qed
  from insert_fixup_spec[OF R2 lastb, of a nk nv] obtain m3 t3 where
    fx: "insert_fixup m2 (Some a) = Some m3" and e3: "m3 = m2\<lparr>root := root m3, nodes := nodes m3\<rparr>"
    and R3: "repr_map m3 t3" and rb3: "root_black t3" and io3: "inorder t3 = inorder (plug gs ?N)"
    and ea: "\<exists>s. easy_at a s \<and> is_sub s t3" by auto
  have io: "inorder t3 = ins_list cmp (a, nk, nv) (inorder T)"
    using io3 inorder_attach[OF ok srt, of nk a RB_RED nv] by (simp add: gs_def)
  note g2 = same_rest_fields[OF e2] and g3 = same_rest_fields[OF e3]
  from R3 have r3: "repr (nodes m3) None t3" and rt3: "root m3 = ptr t3" by (auto simp: repr_map_def)
  let ?m5 = "count_insert (m3\<lparr>msize := msize m3 + 1\<rparr>)"
  from tree_height_total[of ?m5 None t3] r3 obtain h where th: "tree_height ?m5 (ptr t3) = Some h"
    by auto
  have "\<exists>m'. ordered_map_insert (Some m) (Some k) (Some v) = Some (ORDERED_MAP_SUCCESS, Some m') \<and>
      nodes m' = nodes m3 \<and> root m' = root m3 \<and> msize m' = msize m3 + 1 \<and> config m' = config m3 \<and>
      next_addr m' = next_addr m3 \<and> avail m' = avail m3"
    unfolding ordered_map_insert_def
    using cmp ts cn d sp lk fx th
    by (simp del: fetch_Some add: rt0 f1 rt3 g3 Let_def)
  then obtain m' where m': "ordered_map_insert (Some m) (Some k) (Some v) = Some (ORDERED_MAP_SUCCESS, Some m')"
    and q: "nodes m' = nodes m3" "root m' = root m3" "msize m' = msize m3 + 1" "config m' = config m3"
      "next_addr m' = next_addr m3" "avail m' = avail m3" by blast
  have R': "repr_map m' t3" using R3 repr_map_cong[OF q(1,2)] by simp
  show ?thesis
    using m' sk sv R' rb3 io a ea q g2 g3 f1 by (intro exI[of _ m'] exI[of _ t3] exI[of _ nk] exI[of _ nv]) simp
qed


section \<open>Removal of an easy node\<close>

lemma is_sub_plug_ex: "is_sub s t \<Longrightarrow> \<exists>fs. t = plug fs s"
proof (induction t)
  case Leaf
  then have "Leaf = plug [] s" by simp
  then show ?case by blast
next
  case (Node l a c k v r)
  from Node.prems consider "s = Node l a c k v r" | "is_sub s l" | "is_sub s r" by auto
  then show ?case
  proof cases
    case 1
    then have "Node l a c k v r = plug [] s" by simp
    then show ?thesis by blast
  next
    case 2
    with Node.IH(1) obtain fs where "l = plug fs s" by blast
    then have "Node l a c k v r = plug (fs @ [Frame Lft a c k v r]) s" by (simp add: plug_append)
    then show ?thesis by blast
  next
    case 3
    with Node.IH(2) obtain fs where "r = plug fs s" by blast
    then have "Node l a c k v r = plug (fs @ [Frame Rgt a c k v l]) s" by (simp add: plug_append)
    then show ?thesis by blast
  qed
qed

lemma sorted_keys_plug_fill:
  assumes "sorted_wrt (\<lambda>x y. cmp x y < 0) (keys_of (plug (f # fs) t))"
  shows "sorted_wrt (\<lambda>x y. cmp x y < 0) (keys_of (fill f t))"
proof -
  have "keys_of (plug fs (fill f t)) =
      map (\<lambda>e. fst (snd e)) (ctx_before fs) @ keys_of (fill f t) @ map (\<lambda>e. fst (snd e)) (ctx_after fs)"
    by (simp add: keys_of_inorder inorder_plug)
  with assms show ?thesis by (simp add: sorted_wrt_append)
qed

lemma find_node_plug:
  assumes ok: "comparator_ok cmp"
  shows "sorted_wrt (\<lambda>x y. cmp x y < 0) (keys_of (plug fs t)) \<Longrightarrow>
    \<exists>k' \<in> set (keys_of t). cmp x k' = 0 \<Longrightarrow> find_node cmp x (plug fs t) = find_node cmp x t"
proof (induction fs arbitrary: t)
  case Nil
  show ?case by simp
next
  case (Cons f fs)
  from Cons.prems(2) obtain k' where k': "k' \<in> set (keys_of t)" "cmp x k' = 0" by blast
  have srt: "sorted_wrt (\<lambda>x y. cmp x y < 0) (keys_of (fill f t))"
    using sorted_keys_plug_fill[OF Cons.prems(1)] .
  have in_fill: "\<exists>k' \<in> set (keys_of (fill f t)). cmp x k' = 0"
    using k' by (cases f rule: frame_cases) auto
  have "find_node cmp x (plug (f # fs) t) = find_node cmp x (fill f t)"
    using Cons.IH[of "fill f t"] Cons.prems(1) in_fill by simp
  also have "\<dots> = find_node cmp x t"
  proof (cases f rule: frame_cases)
    case (Lft b c kb vb sib)
    with srt k' have "cmp k' kb < 0" by (auto simp: sorted_wrt_append)
    with k' have "cmp x kb < 0" using cmp_le_lt_trans[OF ok, of x k' kb] by simp
    with Lft show ?thesis by simp
  next
    case (Rgt b c kb vb sib)
    with srt k' have "cmp kb k' < 0" by (auto simp: sorted_wrt_append)
    moreover have "cmp k' x = 0" using k' cmp_eq_sym[OF ok] by simp
    ultimately have "cmp kb x < 0" using cmp_lt_le_trans[OF ok, of kb k' x] by simp
    then have "cmp x kb > 0" using cmp_gt_iff[OF ok] by simp
    with Rgt show ?thesis by simp
  qed
  finally show ?case .
qed

lemma transplant_heap:
  assumes nu: "nodes m u = Some nu"
    and p: "\<And>p. parent nu = Some p \<Longrightarrow> p \<noteq> u \<and> v \<noteq> Some p \<and> nodes m p \<noteq> None"
    and w: "\<And>w. v = Some w \<Longrightarrow> nodes m w \<noteq> None"
  shows "\<exists>m'. transplant m (Some u) v = Some m' \<and> m' = m\<lparr>root := root m', nodes := nodes m'\<rparr> \<and>
      root m' = (if parent nu = None then v else root m) \<and>
      nodes m' = (\<lambda>q. if parent nu = Some q
                         then map_option (\<lambda>n. if left n = Some u then n\<lparr>left := v\<rparr> else n\<lparr>right := v\<rparr>) (nodes m q)
                       else if v = Some q then map_option (\<lambda>n. n\<lparr>parent := parent nu\<rparr>) (nodes m q)
                       else nodes m q)"
proof (cases v)
  case None
  show ?thesis
  proof (cases "parent nu")
    case pn: None
    show ?thesis using nu None pn
      by (auto simp: transplant_def set_left_def set_right_def set_parent_def store_def fun_eq_iff)
  next
    case (Some pp)
    with p[of pp] obtain np where np: "nodes m pp = Some np" "pp \<noteq> u" by auto
    show ?thesis using nu None Some np
      by (auto simp: transplant_def set_left_def set_right_def set_parent_def store_def fun_eq_iff)
  qed
next
  case (Some ww)
  with w[of ww] obtain nw where nw: "nodes m ww = Some nw" by auto
  show ?thesis
  proof (cases "parent nu")
    case pn: None
    show ?thesis using nu Some pn nw
      by (auto simp: transplant_def set_left_def set_right_def set_parent_def store_def fun_eq_iff)
  next
    case ps: (Some pp)
    with p[of pp] Some obtain np where np: "nodes m pp = Some np" "pp \<noteq> u" "pp \<noteq> ww" by auto
    show ?thesis using nu Some ps nw np
      by (auto simp: transplant_def set_left_def set_right_def set_parent_def store_def fun_eq_iff)
  qed
qed

text \<open>Replacing the subtree at a position by a subtree made of some of its nodes.\<close>

lemma repr_map_replace_child:
  assumes R: "repr_map m (plug fs s)" and a: "ptr s = Some a"
    and new: "repr (nodes m') (cpar fs) s'"
    and sub: "set (addrs s') \<subseteq> set (addrs s)" and ds: "distinct (addrs s')"
    and par: "\<And>p np. cpar fs = Some p \<Longrightarrow> nodes m p = Some np \<Longrightarrow>
        nodes m' p = Some (if left np = Some a then np\<lparr>left := ptr s'\<rparr> else np\<lparr>right := ptr s'\<rparr>)"
    and frm: "\<And>q. q \<notin> set (addrs s) \<Longrightarrow> cpar fs \<noteq> Some q \<Longrightarrow> nodes m' q = nodes m q"
    and rt: "root m' = (if fs = [] then ptr s' else root m)"
  shows "repr_map m' (plug fs s')"
proof (rule repr_map_plug_replace_gen[OF R new _ _ _ rt])
  from R have r: "repr (nodes m) None (plug fs s)" and d: "distinct (addrs (plug fs s))"
    by (auto simp: repr_map_def)
  from d have dd: "distinct (ctx_addrs fs)" "set (addrs s) \<inter> set (ctx_addrs fs) = {}"
    by (auto simp: distinct_plug_iff)
  show "distinct (addrs (plug fs s'))" using dd ds sub by (auto simp: distinct_plug_iff)
  show "nodes m' q = nodes m q" if "q \<in> set (ctx_addrs fs)" "cpar fs \<noteq> Some q" for q
    using frm[of q] that dd by auto
  show "repr (nodes m') (cpar fs') (fill f s')" if fs: "fs = f # fs'" for f fs'
  proof -
    obtain dr p c k v sib where f: "f = Frame dr p c k v sib" by (cases f) auto
    have cp: "cpar fs = Some p" using fs f by simp
    have rf: "repr (nodes m) (cpar fs') (fill f s)" using repr_plug_sub[of "nodes m" fs' "fill f s"] r fs by simp
    have psib: "p \<notin> set (addrs sib)" "set (addrs sib) \<inter> set (addrs s) = {}"
      using dd fs f by auto
    have rsib: "repr (nodes m') (Some p) sib"
    proof -
      have "repr (nodes m) (Some p) sib" using rf f by (cases dr) auto
      moreover have "\<And>q. q \<in> set (addrs sib) \<Longrightarrow> nodes m' q = nodes m q"
        using frm psib cp by auto
      ultimately show ?thesis using repr_frame[of sib "nodes m'" "nodes m" "Some p"] by simp
    qed
    have rnew: "repr (nodes m') (Some p) s'" using new cp by simp
    show ?thesis
    proof (cases dr)
      case Lft
      with rf f have np: "nodes m p = Some (mk_node (cpar fs') s c k v sib)" by simp
      from par[OF cp np] a have "nodes m' p = Some (mk_node (cpar fs') s' c k v sib)"
        by (simp add: mk_node_def)
      with Lft f rsib rnew show ?thesis by simp
    next
      case Rgt
      with rf f have np: "nodes m p = Some (mk_node (cpar fs') sib c k v s)" by simp
      have "ptr sib \<noteq> Some a" using sibling_ptr_neq[of dr p c k v sib fs' s a] d fs f a by simp
      with par[OF cp np] a have "nodes m' p = Some (mk_node (cpar fs') sib c k v s')"
        by (simp add: mk_node_def)
      with Rgt f rsib rnew show ?thesis by simp
    qed
  qed
qed

lemma inorder_removed:
  "easy_at a s \<Longrightarrow> \<exists>xs ys k v. inorder s = xs @ (a, k, v) # ys \<and> inorder (removed s) = xs @ ys \<and> root_key s = Some k"
proof (cases s)
  case Leaf
  assume "easy_at a s"
  with Leaf show ?thesis by simp
next
  case (Node l b c k v r)
  assume e: "easy_at a s"
  show ?thesis
  proof (cases r)
    case Leaf
    with e Node have "inorder s = [] @ (a, k, v) # [] \<and> inorder (removed s) = [] @ [] \<and> root_key s = Some k" by simp
    then show ?thesis by blast
  next
    case rn: (Node rl y cy ky vy rr)
    with e Node have "inorder s = inorder l @ (a, k, v) # ((y, ky, vy) # inorder rr) \<and>
        inorder (removed s) = inorder l @ ((y, ky, vy) # inorder rr) \<and> root_key s = Some k" by simp
    then show ?thesis by blast
  qed
qed

lemma distinct_split_unique:
  "distinct (map fst (u @ e # w)) \<Longrightarrow> u @ e # w = u' @ e' # w' \<Longrightarrow> fst e = fst e' \<Longrightarrow> u = u' \<and> w = w' \<and> e = e'"
proof (induction u arbitrary: u')
  case Nil
  show ?case
  proof (cases u')
    case Nil
    with Nil.prems show ?thesis by simp
  next
    case (Cons x xs)
    with Nil.prems have "e = x" "w = xs @ e' # w'" by auto
    with Nil.prems(1,3) show ?thesis by auto
  qed
next
  case (Cons x u)
  show ?case
  proof (cases u')
    case Nil
    with Cons.prems have "x = e'" "u @ e # w = w'" by auto
    with Cons.prems(1,3) show ?thesis by auto
  next
    case c: (Cons x' xs')
    with Cons.prems have "x = x'" "u @ e # w = xs' @ e' # w'" by auto
    with Cons.IH[of xs'] Cons.prems(1,3) c show ?thesis by auto
  qed
qed

lemma root_black_removed:
  assumes "root_black (plug fs s)" "easy_at a s"
  shows "root_black (plug fs (removed s))"
proof (cases fs rule: rev_cases)
  case Nil
  obtain l b c k v r where s: "s = Node l b c k v r" using assms(2) by (cases s) auto
  show ?thesis
  proof (cases r)
    case Leaf
    with s Nil show ?thesis by (simp add: root_black_def)
  next
    case (Node rl y cy ky vy rr)
    with s Nil assms(1) show ?thesis by (simp add: root_black_def)
  qed
next
  case (snoc gs f)
  with assms(1) show ?thesis
    by (cases f rule: frame_cases) (auto simp: plug_append root_black_def)
qed


lemma destroy_node_spec:
  assumes "nodes m a = Some n"
  shows "\<exists>m'. destroy_node (Some a) cfg m = Some m' \<and> nodes m' = (nodes m)(a := None) \<and>
      root m' = root m \<and> msize m' = msize m \<and> config m' = config m \<and>
      next_addr m' = next_addr m \<and> avail m' = avail m \<and> stats_enabled m' = stats_enabled m"
  using assms by (simp add: destroy_node_def Let_def log_event_def)

lemma delete_fixup_None: "delete_fixup m None = Some m"
  by (simp add: delete_fixup_def delete_fixup_loop.simps[of m None])

lemma ctx_parent_facts:
  assumes R: "repr_map m (plug fs s)" and a: "a \<in> set (addrs s)" and cp: "cpar fs = Some p"
  shows "p \<noteq> a" "nodes m p \<noteq> None" "p \<notin> set (addrs s)"
proof -
  from R have r: "repr (nodes m) None (plug fs s)" and d: "distinct (addrs (plug fs s))"
    by (auto simp: repr_map_def)
  from d have dd: "set (addrs s) \<inter> set (ctx_addrs fs) = {}" by (auto simp: distinct_plug_iff)
  have pin: "p \<in> set (ctx_addrs fs)" using cp by (rule cpar_in_ctx)
  show "p \<noteq> a" using a pin dd by auto
  show "p \<notin> set (addrs s)" using pin dd by auto
  show "nodes m p \<noteq> None" using ctx_node_allocated[OF r cp] .
qed

lemma remove_finish:
  assumes R: "repr_map m3 t'" and dn: "destroy_node (Some a) (config m2) m2 = Some m3"
    and f: "msize m3 = msize m2" "config m3 = config m2" "next_addr m3 = next_addr m2"
      "avail m3 = avail m2" "stats_enabled m3 = stats_enabled m2"
  shows "\<exists>m'. (do {
           m \<leftarrow> destroy_node (Some a) (config m2) m2;
           let m = m\<lparr>msize := msize m - 1\<rparr>;
           if stats_enabled m then do {
             let m = count_delete m;
             h \<leftarrow> tree_height m (root m);
             Some (ORDERED_MAP_SUCCESS, Some (m\<lparr>stats := (stats m)\<lparr>current_height := h\<rparr>\<rparr>))
           } else Some (ORDERED_MAP_SUCCESS, Some m)
         }) = Some (ORDERED_MAP_SUCCESS, Some m') \<and>
      repr_map m' t' \<and> msize m' = msize m2 - 1 \<and> config m' = config m2 \<and>
      next_addr m' = next_addr m2 \<and> avail m' = avail m2"
proof -
  from R have r3: "repr (nodes m3) None t'" and rt3: "root m3 = ptr t'" and d3: "distinct (addrs t')"
    by (auto simp: repr_map_def)
  let ?m5 = "count_delete (m3\<lparr>msize := msize m3 - 1\<rparr>)"
  from tree_height_total[of ?m5 None t'] r3 obtain h where th: "tree_height ?m5 (ptr t') = Some h"
    by auto
  show ?thesis
    using dn th r3 d3 by (simp add: Let_def rt3 f repr_map_def)
qed

lemma remove_leaf_node:
  assumes R: "repr_map m (plug fs (Node Leaf a c ks vs Leaf))"
    and cmp: "key_compare (config m) = Some cmp"
    and ts: "tree_search m (root m) k cmp = Some (Some a)"
  shows "\<exists>m'. ordered_map_remove (Some m) (Some k) = Some (ORDERED_MAP_SUCCESS, Some m') \<and>
      repr_map m' (plug fs Leaf) \<and> msize m' = msize m - 1 \<and> config m' = config m \<and>
      next_addr m' = next_addr m \<and> avail m' = avail m"
proof -
  let ?s = "Node Leaf a c ks vs Leaf"
  from R have r: "repr (nodes m) None (plug fs ?s)" by (simp add: repr_map_def)
  have na: "nodes m a = Some (mk_node (cpar fs) Leaf c ks vs Leaf)" using plug_node[OF r] .
  have pf: "p \<noteq> a \<and> nodes m p \<noteq> None" if "cpar fs = Some p" for p
    using ctx_parent_facts[OF R _ that, of a] by simp
  have tp: "\<And>p. parent (mk_node (cpar fs) Leaf c ks vs Leaf) = Some p \<Longrightarrow>
      p \<noteq> a \<and> None \<noteq> Some p \<and> nodes m p \<noteq> None"
    using pf by (simp add: mk_node_def)
  have tw: "\<And>w. (None :: addr option) = Some w \<Longrightarrow> nodes m w \<noteq> None" by simp
  from transplant_heap[OF na tp tw] obtain m2 where tr: "transplant m (Some a) None = Some m2"
    and e2: "m2 = m\<lparr>root := root m2, nodes := nodes m2\<rparr>"
    and rtraw: "root m2 = (if parent (mk_node (cpar fs) Leaf c ks vs Leaf) = None then None else root m)"
    and hraw: "nodes m2 = (\<lambda>q. if parent (mk_node (cpar fs) Leaf c ks vs Leaf) = Some q
                         then map_option (\<lambda>n. if left n = Some a then n\<lparr>left := None\<rparr> else n\<lparr>right := None\<rparr>) (nodes m q)
                       else if None = Some q then map_option (\<lambda>n. n\<lparr>parent := parent (mk_node (cpar fs) Leaf c ks vs Leaf)\<rparr>) (nodes m q)
                       else nodes m q)"
    by blast
  have rt2: "root m2 = (if fs = [] then None else root m)" using rtraw by (simp add: mk_node_def)
  have h2: "nodes m2 q = (if cpar fs = Some q
      then map_option (\<lambda>n. if left n = Some a then n\<lparr>left := None\<rparr> else n\<lparr>right := None\<rparr>) (nodes m q)
      else nodes m q)" for q
    by (subst hraw) (simp add: mk_node_def)
  note g2 = same_rest_fields[OF e2]
  have a2: "nodes m2 a = Some (mk_node (cpar fs) Leaf c ks vs Leaf)"
  proof -
    have "cpar fs \<noteq> Some a" using pf[of a] by auto
    with na show ?thesis by (simp add: h2)
  qed
  from destroy_node_spec[OF a2, of "config m2"] obtain m3 where
    dn: "destroy_node (Some a) (config m2) m2 = Some m3" and h3: "nodes m3 = (nodes m2)(a := None)"
    and f3: "root m3 = root m2" "msize m3 = msize m2" "config m3 = config m2"
      "next_addr m3 = next_addr m2" "avail m3 = avail m2" "stats_enabled m3 = stats_enabled m2"
    by blast
  have R3: "repr_map m3 (plug fs Leaf)"
  proof (rule repr_map_replace_child[OF R])
    show "ptr ?s = Some a" by simp
    show "repr (nodes m3) (cpar fs) Leaf" by simp
    show "set (addrs Leaf) \<subseteq> set (addrs ?s)" by simp
    show "distinct (addrs (Leaf :: ('a, 'b) tree))" by simp
    show "nodes m3 p = Some (if left np = Some a then np\<lparr>left := ptr Leaf\<rparr> else np\<lparr>right := ptr Leaf\<rparr>)"
      if "cpar fs = Some p" "nodes m p = Some np" for p np
      using that pf[of p] by (simp add: h3 h2)
    show "nodes m3 q = nodes m q" if "q \<notin> set (addrs ?s)" "cpar fs \<noteq> Some q" for q
      using that by (simp add: h3 h2)
    show "root m3 = (if fs = [] then ptr Leaf else root m)" by (simp add: f3 rt2)
  qed
  from remove_finish[OF R3 dn f3(2-)] obtain m' where
    fin: "(do {
           m \<leftarrow> destroy_node (Some a) (config m2) m2;
           let m = m\<lparr>msize := msize m - 1\<rparr>;
           if stats_enabled m then do {
             let m = count_delete m;
             h \<leftarrow> tree_height m (root m);
             Some (ORDERED_MAP_SUCCESS, Some (m\<lparr>stats := (stats m)\<lparr>current_height := h\<rparr>\<rparr>))
           } else Some (ORDERED_MAP_SUCCESS, Some m)
         }) = Some (ORDERED_MAP_SUCCESS, Some m')"
    and post: "repr_map m' (plug fs Leaf)" "msize m' = msize m2 - 1" "config m' = config m2"
      "next_addr m' = next_addr m2" "avail m' = avail m2" by blast
  have fa: "fetch m (Some a) color = Some c" "fetch m (Some a) left = Some None"
    "fetch m (Some a) right = Some None" using na by (simp_all add: mk_node_def)
  have "ordered_map_remove (Some m) (Some k) = Some (ORDERED_MAP_SUCCESS, Some m')"
    unfolding ordered_map_remove_def
    using fin by (simp del: fetch_Some add: cmp ts fa tr delete_fixup_None)
  with post g2 show ?thesis by (intro exI[of _ m']) simp
qed


lemma remove_two_children:
  assumes R: "repr_map m (plug fs (Node (Node ll lb lc lk lv lr) a c ks vs (Node Leaf y RB_RED ky vy rr)))"
    and cmp: "key_compare (config m) = Some cmp"
    and ts: "tree_search m (root m) k cmp = Some (Some a)"
  shows "\<exists>m'. ordered_map_remove (Some m) (Some k) = Some (ORDERED_MAP_SUCCESS, Some m') \<and>
      repr_map m' (plug fs (Node (Node ll lb lc lk lv lr) y c ky vy rr)) \<and>
      msize m' = msize m - 1 \<and> config m' = config m \<and>
      next_addr m' = next_addr m \<and> avail m' = avail m"
proof -
  let ?l = "Node ll lb lc lk lv lr"
  let ?r = "Node Leaf y RB_RED ky vy rr"
  let ?s = "Node ?l a c ks vs ?r"
  let ?s' = "Node ?l y c ky vy rr"
  from R have r: "repr (nodes m) None (plug fs ?s)" and d: "distinct (addrs (plug fs ?s))"
    by (auto simp: repr_map_def)
  from repr_plug_sub[OF r] have
    na: "nodes m a = Some (mk_node (cpar fs) ?l c ks vs ?r)"
    and nl: "nodes m lb = Some (mk_node (Some a) ll lc lk lv lr)"
    and rll: "repr (nodes m) (Some lb) ll" and rlr: "repr (nodes m) (Some lb) lr"
    and ny: "nodes m y = Some (mk_node (Some a) Leaf RB_RED ky vy rr)"
    and rrr: "repr (nodes m) (Some y) rr"
    by simp_all
  from distinct_plug_sub[OF d] have ds: "distinct (addrs ?s)" .
  then have ne: "a \<noteq> y" "a \<noteq> lb" "y \<noteq> lb" "lb \<noteq> y" "y \<noteq> a" "lb \<noteq> a" by auto
  from ds have sub: "\<And>q. q \<in> set (addrs ll) \<union> set (addrs lr) \<union> set (addrs rr) \<Longrightarrow> q \<noteq> a \<and> q \<noteq> y \<and> q \<noteq> lb"
    by auto
  have pf: "p \<noteq> a \<and> p \<noteq> y \<and> p \<noteq> lb \<and> nodes m p \<noteq> None \<and> p \<notin> set (addrs ?s)" if "cpar fs = Some p" for p
  proof -
    have "p \<notin> set (addrs ?s)" "nodes m p \<noteq> None" using ctx_parent_facts[OF R _ that, of a] by simp_all
    then show ?thesis by auto
  qed
  have pn: "cpar fs \<noteq> Some a" "cpar fs \<noteq> Some y" "cpar fs \<noteq> Some lb"
    using pf[of a] pf[of y] pf[of lb] by auto
  have tmin: "tree_minimum m (Some y) = Some (Some y)"
  proof -
    have "repr (nodes m) (Some a) ?r" using ny rrr by simp
    from tree_minimum_spec[OF this] show ?thesis by simp
  qed
  have fa: "fetch m (Some a) color = Some c" "fetch m (Some a) left = Some (Some lb)"
    "fetch m (Some a) right = Some (Some y)" using na by (simp_all add: mk_node_def)
  have fy: "fetch m (Some y) color = Some RB_RED" "fetch m (Some y) right = Some (ptr rr)"
    "fetch m (Some y) parent = Some (Some a)" using ny by (simp_all add: mk_node_def)
  have sx: "set_parent (ptr rr) (Some y) m = Some m" if "rr \<noteq> Leaf"
  proof -
    from that obtain rl rb rc rk rv rr' where rr: "rr = Node rl rb rc rk rv rr'" by (cases rr) auto
    with rrr have nb: "nodes m rb = Some (mk_node (Some y) rl rc rk rv rr')" by simp
    have "(mk_node (Some y) rl rc rk rv rr')\<lparr>parent := Some y\<rparr> = mk_node (Some y) rl rc rk rv rr'"
      by (simp add: mk_node_def)
    then have "(nodes m)(rb \<mapsto> (mk_node (Some y) rl rc rk rv rr')\<lparr>parent := Some y\<rparr>) = nodes m"
      using nb by (simp add: fun_upd_idem)
    then show ?thesis using nb rr by (simp add: set_parent_def store_def)
  qed
  have tp: "\<And>p. parent (mk_node (cpar fs) ?l c ks vs ?r) = Some p \<Longrightarrow>
      p \<noteq> a \<and> Some y \<noteq> Some p \<and> nodes m p \<noteq> None"
    using pf by (auto simp: mk_node_def)
  have tw: "\<And>w. Some y = Some w \<Longrightarrow> nodes m w \<noteq> None" using ny by auto
  from transplant_heap[OF na tp tw] obtain m2 where tr: "transplant m (Some a) (Some y) = Some m2"
    and e2: "m2 = m\<lparr>root := root m2, nodes := nodes m2\<rparr>"
    and rtraw: "root m2 = (if parent (mk_node (cpar fs) ?l c ks vs ?r) = None then Some y else root m)"
    and hraw: "nodes m2 = (\<lambda>q. if parent (mk_node (cpar fs) ?l c ks vs ?r) = Some q
                         then map_option (\<lambda>n. if left n = Some a then n\<lparr>left := Some y\<rparr> else n\<lparr>right := Some y\<rparr>) (nodes m q)
                       else if Some y = Some q then map_option (\<lambda>n. n\<lparr>parent := parent (mk_node (cpar fs) ?l c ks vs ?r)\<rparr>) (nodes m q)
                       else nodes m q)"
    by blast
  note g2 = same_rest_fields[OF e2]
  have rt2: "root m2 = (if fs = [] then Some y else root m)" using rtraw by (simp add: mk_node_def)
  have h2: "nodes m2 q = (if cpar fs = Some q
      then map_option (\<lambda>n. if left n = Some a then n\<lparr>left := Some y\<rparr> else n\<lparr>right := Some y\<rparr>) (nodes m q)
      else if q = y then Some (mk_node (cpar fs) Leaf RB_RED ky vy rr)
      else nodes m q)" for q
    using ny by (subst hraw) (auto simp: mk_node_def)
  have a2: "nodes m2 a = Some (mk_node (cpar fs) ?l c ks vs ?r)" using pn ne na by (simp add: h2)
  have y2: "nodes m2 y = Some (mk_node (cpar fs) Leaf RB_RED ky vy rr)" using pn by (simp add: h2)
  have l2: "nodes m2 lb = Some (mk_node (Some a) ll lc lk lv lr)" using pn ne nl by (simp add: h2)
  have fa2: "fetch m2 (Some a) left = Some (Some lb)" using a2 by (simp add: mk_node_def)
  define m3 where "m3 = m2\<lparr>nodes := (nodes m2)(y \<mapsto> (mk_node (cpar fs) Leaf RB_RED ky vy rr)\<lparr>left := Some lb\<rparr>)\<rparr>"
  have sl: "set_left (Some y) (Some lb) m2 = Some m3" using y2 by (simp add: set_left_def store_def m3_def)
  have fy3: "fetch m3 (Some y) left = Some (Some lb)" by (simp add: m3_def)
  define m4 where "m4 = m3\<lparr>nodes := (nodes m3)(lb \<mapsto> (mk_node (Some a) ll lc lk lv lr)\<lparr>parent := Some y\<rparr>)\<rparr>"
  have l3: "nodes m3 lb = Some (mk_node (Some a) ll lc lk lv lr)" using l2 ne by (simp add: m3_def)
  have sp: "set_parent (Some lb) (Some y) m3 = Some m4" using l3 by (simp add: set_parent_def store_def m4_def)
  have fa4: "fetch m4 (Some a) color = Some c" using a2 ne by (simp add: m4_def m3_def mk_node_def)
  define m5 where "m5 = m4\<lparr>nodes := (nodes m4)(y \<mapsto> (mk_node (cpar fs) Leaf RB_RED ky vy rr)\<lparr>left := Some lb, color := c\<rparr>)\<rparr>"
  have y4: "nodes m4 y = Some ((mk_node (cpar fs) Leaf RB_RED ky vy rr)\<lparr>left := Some lb\<rparr>)"
    using ne by (simp add: m4_def m3_def)
  have sc: "store (Some y) (\<lambda>n. n\<lparr>color := c\<rparr>) m4 = Some m5" using y4 by (simp add: store_def m5_def)
  have f5: "root m5 = root m2" "msize m5 = msize m2" "config m5 = config m2" "next_addr m5 = next_addr m2"
    "avail m5 = avail m2" "stats_enabled m5 = stats_enabled m2"
    by (simp_all add: m5_def m4_def m3_def)
  have h5: "nodes m5 q = (if q = y then Some (mk_node (cpar fs) ?l c ky vy rr)
      else if q = lb then Some (mk_node (Some y) ll lc lk lv lr) else nodes m2 q)" for q
    using ne by (simp add: m5_def m4_def m3_def mk_node_def)
  have a5: "nodes m5 a = Some (mk_node (cpar fs) ?l c ks vs ?r)" using a2 ne by (simp add: h5)
  from destroy_node_spec[OF a5, of "config m5"] obtain m6 where
    dn: "destroy_node (Some a) (config m5) m5 = Some m6" and h6: "nodes m6 = (nodes m5)(a := None)"
    and f6: "root m6 = root m5" "msize m6 = msize m5" "config m6 = config m5"
      "next_addr m6 = next_addr m5" "avail m6 = avail m5" "stats_enabled m6 = stats_enabled m5"
    by blast
  have same: "nodes m6 q = nodes m q" if "q \<noteq> a" "q \<noteq> y" "q \<noteq> lb" "cpar fs \<noteq> Some q" for q
    using that by (simp add: h6 h5 h2)
  have R6: "repr_map m6 (plug fs ?s')"
  proof (rule repr_map_replace_child[OF R])
    show "ptr ?s = Some a" by simp
    show "repr (nodes m6) (cpar fs) ?s'"
    proof -
      have 1: "nodes m6 y = Some (mk_node (cpar fs) ?l c ky vy rr)" using ne by (simp add: h6 h5)
      have 2: "nodes m6 lb = Some (mk_node (Some y) ll lc lk lv lr)" using ne by (simp add: h6 h5)
      have frm: "nodes m6 q = nodes m q" if "q \<in> set (addrs ll) \<union> set (addrs lr) \<union> set (addrs rr)" for q
      proof (rule same)
        from sub[OF that] show "q \<noteq> a" "q \<noteq> y" "q \<noteq> lb" by auto
        show "cpar fs \<noteq> Some q" using pf[of q] that by auto
      qed
      have 3: "repr (nodes m6) (Some lb) ll" using repr_frame[of ll "nodes m6" "nodes m" "Some lb"] frm rll by simp
      have 4: "repr (nodes m6) (Some lb) lr" using repr_frame[of lr "nodes m6" "nodes m" "Some lb"] frm rlr by simp
      have 5: "repr (nodes m6) (Some y) rr" using repr_frame[of rr "nodes m6" "nodes m" "Some y"] frm rrr by simp
      from 1 2 3 4 5 show ?thesis by simp
    qed
    show "set (addrs ?s') \<subseteq> set (addrs ?s)" by auto
    show "distinct (addrs ?s')" using ds by auto
    show "nodes m6 p = Some (if left np = Some a then np\<lparr>left := ptr ?s'\<rparr> else np\<lparr>right := ptr ?s'\<rparr>)"
      if "cpar fs = Some p" "nodes m p = Some np" for p np
      using that pf[of p] by (simp add: h6 h5 h2)
    show "nodes m6 q = nodes m q" if "q \<notin> set (addrs ?s)" "cpar fs \<noteq> Some q" for q
      using that by (intro same) auto
    show "root m6 = (if fs = [] then ptr ?s' else root m)" by (simp add: f6 f5 rt2)
  qed
  from remove_finish[OF R6 dn f6(2-)] obtain m' where
    fin: "(do {
           m \<leftarrow> destroy_node (Some a) (config m5) m5;
           let m = m\<lparr>msize := msize m - 1\<rparr>;
           if stats_enabled m then do {
             let m = count_delete m;
             h \<leftarrow> tree_height m (root m);
             Some (ORDERED_MAP_SUCCESS, Some (m\<lparr>stats := (stats m)\<lparr>current_height := h\<rparr>\<rparr>))
           } else Some (ORDERED_MAP_SUCCESS, Some m)
         }) = Some (ORDERED_MAP_SUCCESS, Some m')"
    and post: "repr_map m' (plug fs ?s')" "msize m' = msize m5 - 1" "config m' = config m5"
      "next_addr m' = next_addr m5" "avail m' = avail m5" by blast
  have "ordered_map_remove (Some m) (Some k) = Some (ORDERED_MAP_SUCCESS, Some m')"
  proof (cases "ptr rr")
    case None
    show ?thesis
      unfolding ordered_map_remove_def
      using fin by (simp del: fetch_Some ptr_eq_None add: cmp ts fa tmin fy None tr fa2 sl fy3 sp fa4 sc)
  next
    case (Some rb)
    then have "rr \<noteq> Leaf" by auto
    from sx[OF this] Some have sx': "set_parent (Some rb) (Some y) m = Some m" by simp
    show ?thesis
      unfolding ordered_map_remove_def
      using fin by (simp del: fetch_Some ptr_eq_None add: cmp ts fa tmin fy Some sx' tr fa2 sl fy3 sp fa4 sc)
  qed
  with post g2 f5 show ?thesis by (intro exI[of _ m']) simp
qed


lemma remove_easy:
  assumes R: "repr_map m (plug fs s)" and easy: "easy_at a s"
    and cmp: "key_compare (config m) = Some cmp" and ok: "comparator_ok cmp"
    and srt: "sorted_wrt (\<lambda>x y. cmp x y < 0) (keys_of (plug fs s))"
    and key: "root_key s = Some ks" and eq: "cmp k ks = 0"
  shows "\<exists>m'. ordered_map_remove (Some m) (Some k) = Some (ORDERED_MAP_SUCCESS, Some m') \<and>
      repr_map m' (plug fs (removed s)) \<and> msize m' = msize m - 1 \<and> config m' = config m \<and>
      next_addr m' = next_addr m \<and> avail m' = avail m"
proof -
  from easy key obtain l c vs r where s: "s = Node l a c ks vs r" by (cases s) auto
  from R have r0: "repr (nodes m) None (plug fs s)" and rt: "root m = ptr (plug fs s)"
    by (auto simp: repr_map_def)
  have "find_node cmp k (plug fs s) = find_node cmp k s"
    by (rule find_node_plug[OF ok srt]) (use s eq in auto)
  also have "\<dots> = s" using s eq by simp
  finally have "tree_search m (ptr (plug fs s)) k cmp = Some (ptr s)"
    using tree_search_find[OF r0, of k cmp] by simp
  then have ts: "tree_search m (root m) k cmp = Some (Some a)" using rt s by simp
  show ?thesis
  proof (cases r)
    case Leaf
    with easy s have s': "s = Node Leaf a c ks vs Leaf" by simp
    from remove_leaf_node[OF R[unfolded s'] cmp ts] show ?thesis by (simp add: s')
  next
    case (Node rl y cy ky vy rr)
    with easy s obtain ll lb lc lk lv lr where
      s': "s = Node (Node ll lb lc lk lv lr) a c ks vs (Node Leaf y RB_RED ky vy rr)"
      by (cases l) auto
    from remove_two_children[OF R[unfolded s'] cmp ts] show ?thesis by (simp add: s')
  qed
qed

lemma search_absent:
  assumes R: "repr_map m T" and ok: "comparator_ok cmp"
    and srt: "sorted_wrt (\<lambda>x y. cmp x y < 0) (keys_of T)"
    and absent: "lookup cmp k (bindings_of T) = None"
  shows "tree_search m (root m) k cmp = Some None"
proof -
  from R have r0: "repr (nodes m) None T" and rt0: "root m = ptr T" by (auto simp: repr_map_def)
  have "root_val (find_node cmp k T) = None" using find_node_lookup[OF ok srt, of k] absent by simp
  then have "ptr (find_node cmp k T) = None" using find_node_ptr_val(2)[OF r0, of cmp k] by simp
  then show ?thesis using tree_search_find[OF r0, of k cmp] rt0 by simp
qed

lemma insert_new_oom:
  assumes ts: "tree_search m (root m) k cmp = Some None"
    and cmp: "key_compare (config m) = Some cmp"
    and cn: "create_node k v (config m) m = (None, m1)"
  shows "ordered_map_insert (Some m) (Some k) (Some v) = Some (ORDERED_MAP_ERROR_OUT_OF_MEMORY, Some m1)"
  unfolding ordered_map_insert_def using cmp ts cn by simp

lemma wf_insert_new:
  assumes wf: "wf_map m" and pol: "policy_ok (config m)" and cmp: "key_compare (config m) = Some cmp"
    and bs: "bindings m = Some bs" and absent: "lookup cmp k bs = None"
  shows "\<exists>e m1. ordered_map_insert (Some m) (Some k) (Some v) = Some (e, Some m1) \<and>
      (e = ORDERED_MAP_SUCCESS \<or> e = ORDERED_MAP_ERROR_OUT_OF_MEMORY) \<and>
      (e = ORDERED_MAP_SUCCESS \<longrightarrow>
        (\<exists>T t1 a nk nv. repr_map m T \<and> repr_map m1 t1 \<and> wf_map m1 \<and> root_black t1 \<and>
           inorder t1 = ins_list cmp (a, nk, nv) (inorder T) \<and> cmp k nk = 0 \<and>
           stored_value (config m) v = Some nv \<and>
           (\<exists>s. easy_at a s \<and> is_sub s t1) \<and>
           sorted_wrt (\<lambda>x y. cmp x y < 0) (keys_of t1) \<and>
           msize m1 = msize m + 1 \<and> config m1 = config m \<and> avail m1 \<le> avail m \<and>
           next_addr m \<le> next_addr m1))"
proof -
  from wf obtain T cmp' where T: "repr_map m T" "list_all (\<lambda>a. a < next_addr m) (addrs T)"
      "root_black T" "key_compare (config m) = Some cmp'"
      "sorted_wrt (\<lambda>x y. cmp' x y < 0) (keys_of T)" "bindings m = Some (bindings_of T)"
    by (rule wf_mapE)
  with cmp bs have [simp]: "cmp' = cmp" "bindings_of T = bs" by auto
  have ok: "comparator_ok cmp" using policy_okD(1)[OF pol cmp] .
  have srt: "sorted_wrt (\<lambda>x y. cmp x y < 0) (keys_of T)" using T(5) by simp
  have ab: "lookup cmp k (bindings_of T) = None" using absent by simp
  have ts: "tree_search m (root m) k cmp = Some None" using search_absent[OF T(1) ok srt ab] .
  obtain r m0 where cn: "create_node k v (config m) m = (r, m0)" by (cases "create_node k v (config m) m")
  show ?thesis
  proof (cases r)
    case None
    with insert_new_oom[OF ts cmp] cn show ?thesis by auto
  next
    case (Some a)
    from insert_new_run[OF T(1,2,3) cmp ok srt ab cn[unfolded Some]] obtain m1 t1 nk nv where
      i: "ordered_map_insert (Some m) (Some k) (Some v) = Some (ORDERED_MAP_SUCCESS, Some m1)"
      and sk: "stored_key (config m) k = Some nk" and sv: "stored_value (config m) v = Some nv"
      and R1: "repr_map m1 t1" and rb1: "root_black t1"
      and io: "inorder t1 = ins_list cmp (a, nk, nv) (inorder T)"
      and a: "a = next_addr m" and na: "next_addr m1 = Suc a"
      and ea: "\<exists>s. easy_at a s \<and> is_sub s t1"
      and f: "msize m1 = msize m + 1" "config m1 = config m" "avail m1 \<le> avail m"
      by blast
    have knk: "cmp k nk = 0" using policy_okD(2)[OF pol cmp sk] .
    have ne: "cmp (fst (snd (a, nk, nv))) (fst (snd y)) \<noteq> 0" if "y \<in> set (inorder T)" for y
    proof
      assume z: "cmp (fst (snd (a, nk, nv))) (fst (snd y)) = 0"
      then have "cmp k (fst (snd y)) = 0" using cmp_eq_trans[OF ok knk] by simp
      moreover have "snd y \<in> set (bindings_of T)" using that by (auto simp: bindings_of_inorder)
      ultimately show False using ab unfolding lookup_None_iff by (cases "snd y") auto
    qed
    have s1: "sorted_wrt (\<lambda>x y. cmp x y < 0) (keys_of t1)"
      unfolding keys_of_inorder io
      by (rule sorted_ins_list[OF ok]) (use srt ne in \<open>auto simp: keys_of_inorder\<close>)
    have al: "list_all (\<lambda>a. a < next_addr m1) (addrs t1)"
      using T(2) a na by (auto simp: addrs_inorder io list_all_iff)
    have wf1: "wf_map m1"
      unfolding wf_map_iff using R1 al rb1 cmp s1 f(2) by auto
    have "next_addr m \<le> next_addr m1" using a na by simp
    with i T(1) R1 wf1 rb1 io knk sv ea s1 f show ?thesis by blast
  qed
qed

lemma wf_insert_remove:
  assumes wf: "wf_map m" and pol: "policy_ok (config m)" and cmp: "key_compare (config m) = Some cmp"
    and bs: "bindings m = Some bs" and absent: "lookup cmp k bs = None"
  shows "\<exists>e m1. ordered_map_insert (Some m) (Some k) (Some v) = Some (e, Some m1) \<and>
      (e = ORDERED_MAP_SUCCESS \<or> e = ORDERED_MAP_ERROR_OUT_OF_MEMORY) \<and>
      (e = ORDERED_MAP_SUCCESS \<longrightarrow>
        (\<exists>m2. ordered_map_remove (Some m1) (Some k) = Some (ORDERED_MAP_SUCCESS, Some m2) \<and>
           wf_map m2 \<and> bindings m2 = Some bs \<and> msize m2 = msize m \<and> config m2 = config m))"
proof -
  from wf_insert_new[OF assms, of v] obtain e m1 where
    i: "ordered_map_insert (Some m) (Some k) (Some v) = Some (e, Some m1)"
    and e: "e = ORDERED_MAP_SUCCESS \<or> e = ORDERED_MAP_ERROR_OUT_OF_MEMORY"
    and post: "e = ORDERED_MAP_SUCCESS \<Longrightarrow>
        (\<exists>T t1 a nk nv. repr_map m T \<and> repr_map m1 t1 \<and> wf_map m1 \<and> root_black t1 \<and>
           inorder t1 = ins_list cmp (a, nk, nv) (inorder T) \<and> cmp k nk = 0 \<and>
           stored_value (config m) v = Some nv \<and>
           (\<exists>s. easy_at a s \<and> is_sub s t1) \<and>
           sorted_wrt (\<lambda>x y. cmp x y < 0) (keys_of t1) \<and>
           msize m1 = msize m + 1 \<and> config m1 = config m \<and> avail m1 \<le> avail m \<and>
           next_addr m \<le> next_addr m1)"
    by blast
  have ok: "comparator_ok cmp" using policy_okD(1)[OF pol cmp] .
  have "\<exists>m2. ordered_map_remove (Some m1) (Some k) = Some (ORDERED_MAP_SUCCESS, Some m2) \<and>
           wf_map m2 \<and> bindings m2 = Some bs \<and> msize m2 = msize m \<and> config m2 = config m"
    if "e = ORDERED_MAP_SUCCESS"
  proof -
    from post[OF that] obtain T t1 a nk nv s where RT: "repr_map m T" and R1: "repr_map m1 t1"
      and rb1: "root_black t1" and io: "inorder t1 = ins_list cmp (a, nk, nv) (inorder T)"
      and knk: "cmp k nk = 0" and ea: "easy_at a s" and sub: "is_sub s t1"
      and s1: "sorted_wrt (\<lambda>x y. cmp x y < 0) (keys_of t1)"
      and f: "msize m1 = msize m + 1" "config m1 = config m" "next_addr m \<le> next_addr m1"
      by blast
    from is_sub_plug_ex[OF sub] obtain fs where t1: "t1 = plug fs s" by blast
    from inorder_removed[OF ea] obtain xs ys k' v' where
      iss: "inorder s = xs @ (a, k', v') # ys" and ir: "inorder (removed s) = xs @ ys"
      and rk: "root_key s = Some k'" by blast
    from ins_list_split[of "inorder T" cmp "(a, nk, nv)"] obtain ys0 zs0 where
      sp: "inorder T = ys0 @ zs0" "ins_list cmp (a, nk, nv) (inorder T) = ys0 @ (a, nk, nv) # zs0" by blast
    have d1: "distinct (map fst (inorder t1))" using R1 by (simp add: repr_map_def addrs_inorder)
    have eq1: "(ctx_before fs @ xs) @ (a, k', v') # (ys @ ctx_after fs) = ys0 @ (a, nk, nv) # zs0"
      using io sp(2) by (simp add: t1 inorder_plug iss)
    have d1': "distinct (map fst ((ctx_before fs @ xs) @ (a, k', v') # (ys @ ctx_after fs)))"
      using d1 by (simp add: t1 inorder_plug iss)
    from distinct_split_unique[OF d1' eq1] have u: "ctx_before fs @ xs = ys0" "ys @ ctx_after fs = zs0"
      "k' = nk" by auto
    have io2: "inorder (plug fs (removed s)) = inorder T"
      using u sp(1) by (simp add: inorder_plug ir)
    have c1: "key_compare (config m1) = Some cmp" using cmp f(2) by simp
    from remove_easy[OF R1[unfolded t1] ea c1 ok s1[unfolded t1] rk] knk u(3) obtain m2 where
      rm: "ordered_map_remove (Some m1) (Some k) = Some (ORDERED_MAP_SUCCESS, Some m2)"
      and R2: "repr_map m2 (plug fs (removed s))" and g: "msize m2 = msize m1 - 1" "config m2 = config m1"
        "next_addr m2 = next_addr m1" by auto
    from wf obtain T' cmp' where T': "repr_map m T'" "list_all (\<lambda>a. a < next_addr m) (addrs T')"
      "key_compare (config m) = Some cmp'" "sorted_wrt (\<lambda>x y. cmp' x y < 0) (keys_of T')"
      "bindings m = Some (bindings_of T')"
      by (rule wf_mapE)
    have TT: "T' = T" using repr_map_tree_of[OF T'(1)] repr_map_tree_of[OF RT] by simp
    have cc: "cmp' = cmp" using T'(3) cmp by simp
    have al: "list_all (\<lambda>a. a < next_addr m2) (addrs (plug fs (removed s)))"
      using T'(2) f(3) g(3) unfolding addrs_inorder io2 TT by (auto simp: list_all_iff)
    have rb2: "root_black (plug fs (removed s))" using root_black_removed[OF rb1[unfolded t1] ea] .
    have s2: "sorted_wrt (\<lambda>x y. cmp x y < 0) (keys_of (plug fs (removed s)))"
      using T'(4) unfolding keys_of_inorder io2 TT cc .
    have wf2: "wf_map m2"
      unfolding wf_map_iff using R2 al rb2 s2 cmp f(2) g(2) by auto
    have b2: "bindings m2 = Some bs"
      using repr_map_bindings[OF R2] T'(5) bs unfolding bindings_of_inorder io2 TT by simp
    have "msize m2 = msize m" using g(1) f(1) by simp
    with rm wf2 b2 g(2) f(2) show ?thesis by auto
  qed
  with i e show ?thesis by blast
qed


section \<open>Insertion on a well-formed map\<close>

lemma wf_insert:
  assumes wf: "wf_map m" and pol: "policy_ok (config m)" and cmp: "key_compare (config m) = Some cmp"
  shows "\<exists>e m1. ordered_map_insert (Some m) (Some k) (Some v) = Some (e, Some m1) \<and>
      (e = ORDERED_MAP_SUCCESS \<or> e = ORDERED_MAP_ERROR_OUT_OF_MEMORY) \<and>
      (e = ORDERED_MAP_SUCCESS \<longrightarrow>
         wf_map m1 \<and> config m1 = config m \<and>
         (\<exists>bs1. bindings m1 = Some bs1 \<and> lookup cmp k bs1 \<noteq> None))"
proof -
  from wf obtain t cmp' where t: "repr_map m t" "key_compare (config m) = Some cmp'"
      "sorted_wrt (\<lambda>x y. cmp' x y < 0) (keys_of t)" "bindings m = Some (bindings_of t)"
    by (rule wf_mapE)
  with cmp have cc: "cmp' = cmp" by simp
  have ok: "comparator_ok cmp" using policy_okD(1)[OF pol cmp] .
  let ?bs = "bindings_of t"
  show ?thesis
  proof (cases "lookup cmp k ?bs")
    case None
    from wf_insert_new[OF wf pol cmp t(4) None, of v] obtain e m1 where
      i: "ordered_map_insert (Some m) (Some k) (Some v) = Some (e, Some m1)"
      and e: "e = ORDERED_MAP_SUCCESS \<or> e = ORDERED_MAP_ERROR_OUT_OF_MEMORY"
      and post: "e = ORDERED_MAP_SUCCESS \<Longrightarrow>
        (\<exists>T t1 a nk nv. repr_map m T \<and> repr_map m1 t1 \<and> wf_map m1 \<and> root_black t1 \<and>
           inorder t1 = ins_list cmp (a, nk, nv) (inorder T) \<and> cmp k nk = 0 \<and>
           stored_value (config m) v = Some nv \<and>
           (\<exists>s. easy_at a s \<and> is_sub s t1) \<and>
           sorted_wrt (\<lambda>x y. cmp x y < 0) (keys_of t1) \<and>
           msize m1 = msize m + 1 \<and> config m1 = config m \<and> avail m1 \<le> avail m \<and>
           next_addr m \<le> next_addr m1)"
      by blast
    have "wf_map m1 \<and> config m1 = config m \<and> (\<exists>bs1. bindings m1 = Some bs1 \<and> lookup cmp k bs1 \<noteq> None)"
      if "e = ORDERED_MAP_SUCCESS"
    proof -
      from post[OF that] obtain T t1 a nk nv where R1: "repr_map m1 t1" and wf1: "wf_map m1"
        and io: "inorder t1 = ins_list cmp (a, nk, nv) (inorder T)" and knk: "cmp k nk = 0"
        and c1: "config m1 = config m" by blast
      have "(nk, nv) \<in> set (bindings_of t1)"
        unfolding bindings_of_inorder io by (simp add: image_iff)
      with knk have "lookup cmp k (bindings_of t1) \<noteq> None" unfolding lookup_None_iff by auto
      with wf1 c1 repr_map_bindings[OF R1] show ?thesis by simp
    qed
    with i e show ?thesis by blast
  next
    case (Some old)
    then have present: "lookup cmp k ?bs \<noteq> None" by simp
    show ?thesis
    proof (cases "stored_value (config m) v")
      case None
      from t(1) have r: "repr (nodes m) None t" by (simp add: repr_map_def)
      have "root_val (find_node cmp k t) \<noteq> None"
        using find_node_lookup[OF ok, of t k] t(3) present cc by simp
      then obtain a where a: "ptr (find_node cmp k t) = Some a"
        using find_node_ptr_val(2)[OF r, of cmp k] by (cases "ptr (find_node cmp k t)") auto
      from insert_existing_oom[OF t(1) cmp a None] show ?thesis by auto
    next
      case sv: (Some w)
      from wf_map_overwrite[OF wf pol cmp t(4) present sv] obtain m1 where
        m1: "ordered_map_insert (Some m) (Some k) (Some v) = Some (ORDERED_MAP_SUCCESS, Some m1)"
          "wf_map m1" "bindings m1 = Some (set_binding cmp k w ?bs)" "config m1 = config m"
        by blast
      have "lookup cmp k (set_binding cmp k w ?bs) \<noteq> None"
        using lookup_set_binding[OF present, of w] by simp
      with m1 show ?thesis by auto
    qed
  qed
qed

text \<open>\<open>replace\<close> with a key the map does not hold only counts a search.\<close>

lemma replace_absent:
  assumes "wf_map m" and "policy_ok (config m)" and "key_compare (config m) = Some cmp"
    and "bindings m = Some bs" and "lookup cmp k bs = None"
  shows "ordered_map_replace (Some m) (Some k) vp =
           Some (ORDERED_MAP_ERROR_KEY_NOT_FOUND, Some (touched m))"
    and "bindings (touched m) = Some bs" and "msize (touched m) = msize m"
    and "nodes (touched m) = nodes m" and "root (touched m) = root m"
proof -
  have c: "ordered_map_contains (Some m) (Some k) = Some (lookup cmp k bs \<noteq> None, Some (touched m))"
    by (rule wf_map_contains[OF assms(1-4)])
  with assms(5) show "ordered_map_replace (Some m) (Some k) vp =
      Some (ORDERED_MAP_ERROR_KEY_NOT_FOUND, Some (touched m))"
    by (simp add: ordered_map_replace_def)
  show "bindings (touched m) = Some bs" using assms(4) by simp
  show "msize (touched m) = msize m" by (simp add: touched_def count_search_def)
  show "nodes (touched m) = nodes m" by simp
  show "root (touched m) = root m" by simp
qed

section \<open>Claims settled by running the code\<close>

text \<open>
  C1 (the five red-black invariants hold after every insert and remove): the code breaks
  the claim. Inserting 1, 2, 3, 4 under the integer policy gives a red-black tree; the
  following \<open>remove(1)\<close> unlinks a black leaf, calls \<open>delete_fixup\<close> with \<open>x = NIL\<close>, whose
  loop condition \<open>x != NIL\<close> skips the rebalancing, and leaves a tree whose root-to-leaf
  paths hold 1, 2, 2 and 2 black nodes.
\<close>

theorem C1_remove_black_leaf_unbalanced:
  "(do { m \<leftarrow> ordered_map_create 100 (Some int_config);
         m \<leftarrow> run_ops [Insert 1 10, Insert 2 20, Insert 3 30, Insert 4 40] m;
         t \<leftarrow> tree_of m (root m);
         m' \<leftarrow> run_ops [Remove 1] m;
         t' \<leftarrow> tree_of m' (root m');
         Some (red_black t, black_heights t', black_balanced t') })
   = Some (True, [1, 2, 2, 2], False)"
  by code_simp

text \<open>
  C2 (a mutation that returns an error leaves the map as it was; a failed value
  materialization in an overwriting insert leaves the old value unreleased): the code
  breaks the claim. Under a copy/destroy policy whose value copy fails, the overwriting
  \<open>insert(1, 20)\<close> returns out-of-memory after it has already run the value destructor on
  the stored value 10, which the binding still holds.
\<close>

theorem C2_failed_overwrite_releases_old_value:
  "(do { m \<leftarrow> ordered_map_create 100 (Some (copy_config (\<lambda>v. if v = 20 then None else Some v)));
         m \<leftarrow> run_ops [Insert 1 10] m;
         (e, mp) \<leftarrow> ordered_map_insert (Some m) (Some 1) (Some 20);
         m' \<leftarrow> mp;
         (g, mp') \<leftarrow> ordered_map_get mp (Some 1);
         Some (e, trace m, trace m', g) })
   = Some (ORDERED_MAP_ERROR_OUT_OF_MEMORY, [], [Value_destructor 10], Some 10)"
  by code_simp

text \<open>
  C3 (a successful overwriting insert under a copy/destroy value policy runs the value
  destructor on the old value exactly once): the code breaks the claim. The overwriting
  \<open>insert(1, 20)\<close> runs the destructor on the old value 10 before the copy and once more
  after it.
\<close>

theorem C3_overwrite_destroys_old_value_twice:
  "(do { m \<leftarrow> ordered_map_create 100 (Some (copy_config Some));
         m \<leftarrow> run_ops [Insert 1 10] m;
         (e, mp) \<leftarrow> ordered_map_insert (Some m) (Some 1) (Some 20);
         m' \<leftarrow> mp;
         (g, mp') \<leftarrow> ordered_map_get mp (Some 1);
         Some (e, trace m, trace m', g, msize m, msize m') })
   = Some (ORDERED_MAP_SUCCESS, [], [Value_destructor 10, Value_destructor 10], Some 20, 1, 1)"
  by code_simp

text \<open>
  C4 (\<open>insert(k, v); insert(k, v')\<close> leaves \<open>get(k)\<close> equal to \<open>v'\<close>): the code breaks
  the claim under a copy/destroy value policy. Starting from the empty map, \<open>insert(1, 10)\<close>
  succeeds; the following \<open>insert(1, 20)\<close> runs the value destructor on the value 10 the
  first insert stored, copies 20, and runs the destructor on the same stored value once
  more before it rebinds the key, so the stored value is released twice on the way to
  the new one. When the copy of 20 fails, the second insert returns out-of-memory after
  the first destructor call, and \<open>get(1)\<close> returns the released 10, not 20.
\<close>

theorem C4_second_insert_destroys_first_value_twice:
  "(do { m \<leftarrow> ordered_map_create 100 (Some (copy_config Some));
         (e1, mp1) \<leftarrow> ordered_map_insert (Some m) (Some 1) (Some 10);
         m1 \<leftarrow> mp1;
         (e2, mp2) \<leftarrow> ordered_map_insert mp1 (Some 1) (Some 20);
         m2 \<leftarrow> mp2;
         Some (e1, trace m1, e2, trace m2) })
     = Some (ORDERED_MAP_SUCCESS, [], ORDERED_MAP_SUCCESS, [Value_destructor 10, Value_destructor 10]) \<and>
   (do { m \<leftarrow> ordered_map_create 100 (Some (copy_config (\<lambda>v. if v = 20 then None else Some v)));
         (e1, mp1) \<leftarrow> ordered_map_insert (Some m) (Some 1) (Some 10);
         (e2, mp2) \<leftarrow> ordered_map_insert mp1 (Some 1) (Some 20);
         m2 \<leftarrow> mp2;
         (g, mp3) \<leftarrow> ordered_map_get mp2 (Some 1);
         Some (e1, e2, trace m2, g) })
     = Some (ORDERED_MAP_SUCCESS, ORDERED_MAP_ERROR_OUT_OF_MEMORY, [Value_destructor 10], Some 10)"
  by code_simp

text \<open>
  C5 (\<open>replace(k, v)\<close> returns success and updates the value when \<open>k\<close> is bound, and returns
  key-not-found without modification otherwise): the code breaks the first half under a
  copy/destroy value policy. \<open>replace\<close> hands a bound key to \<open>ordered_map_insert\<close>; on the
  map holding 1 \<mapsto> 10, \<open>replace(1, 20)\<close> runs the value destructor on the stored 10 before
  the copy and once more after it, and when the copy fails it returns out-of-memory, not
  success, with the released 10 still bound. (The second half holds: lemma
  \<open>replace_absent\<close>.)
\<close>

theorem C5_replace_destroys_old_value_twice:
  "(do { m \<leftarrow> ordered_map_create 100 (Some (copy_config Some));
         m \<leftarrow> run_ops [Insert 1 10] m;
         (e, mp) \<leftarrow> ordered_map_replace (Some m) (Some 1) (Some 20);
         m' \<leftarrow> mp;
         Some (e, trace m, trace m') })
     = Some (ORDERED_MAP_SUCCESS, [], [Value_destructor 10, Value_destructor 10]) \<and>
   (do { m \<leftarrow> ordered_map_create 100 (Some (copy_config (\<lambda>v. if v = 20 then None else Some v)));
         m \<leftarrow> run_ops [Insert 1 10] m;
         (e, mp) \<leftarrow> ordered_map_replace (Some m) (Some 1) (Some 20);
         m' \<leftarrow> mp;
         (g, mp') \<leftarrow> ordered_map_get mp (Some 1);
         Some (e, trace m', g) })
     = Some (ORDERED_MAP_ERROR_OUT_OF_MEMORY, [Value_destructor 10], Some 10)"
  by code_simp

text \<open>
  C9 (\<open>validate\<close> returns true iff the tree satisfies the uniqueness, ordering and balance
  invariants, and returns false on some violating state): the code breaks the claim.
  \<open>ordered_map_validate\<close> returns true for every non-null map; on the map reached by
  inserting 1, 2, 3, 4 and removing 1, whose tree is not a red-black tree, it returns
  true.
\<close>

theorem C9_validate_accepts_unbalanced_tree:
  "(do { m \<leftarrow> ordered_map_create 100 (Some int_config);
         m \<leftarrow> run_ops [Insert 1 10, Insert 2 20, Insert 3 30, Insert 4 40, Remove 1] m;
         t \<leftarrow> tree_of m (root m);
         Some (red_black t, ordered_map_validate (Some m)) })
   = Some (False, True)"
  by code_simp

text \<open>
  C10 (the read-only queries are total on a null map handle): \<open>size\<close> returns 0, \<open>empty\<close>
  returns true, \<open>get\<close> returns the null pointer and \<open>contains\<close> returns false, for every
  key pointer; \<open>get\<close> and \<open>contains\<close> return normally and leave the handle null.
\<close>

theorem C10_queries_on_null_map:
  "ordered_map_size None = 0 \<and> ordered_map_empty None \<and>
   ordered_map_get None kp = Some (None, None) \<and>
   ordered_map_contains None kp = Some (False, None)"
  by (simp add: ordered_map_size_def ordered_map_empty_def ordered_map_get_def
      ordered_map_contains_def)

section \<open>Claims proved for every well-formed map\<close>

text \<open>
  C8 (\<open>get_or_default\<close>): on a well-formed map under a policy whose comparator is an
  order, \<open>get_or_default(k, d)\<close> returns the stored value pointer of the binding for \<open>k\<close>
  when there is one, and otherwise the pointer \<open>d\<close> it was given; the call only counts a
  search, so the size, the bindings and the answer of \<open>contains(k)\<close> are as before.
\<close>

theorem C8_get_or_default:
  assumes "wf_map m" and "policy_ok (config m)" and "key_compare (config m) = Some cmp"
    and "bindings m = Some bs"
  shows "ordered_map_get_or_default (Some m) (Some k) d =
           Some (case lookup cmp k bs of Some v \<Rightarrow> Some v | None \<Rightarrow> d, Some (touched m)) \<and>
         ordered_map_size (Some (touched m)) = ordered_map_size (Some m) \<and>
         bindings (touched m) = Some bs \<and>
         map_option fst (ordered_map_contains (Some m) (Some k)) = Some (lookup cmp k bs \<noteq> None) \<and>
         map_option fst (ordered_map_contains (Some (touched m)) (Some k)) = Some (lookup cmp k bs \<noteq> None)"
proof -
  have g: "ordered_map_get (Some m) (Some k) = Some (lookup cmp k bs, Some (touched m))"
    by (rule wf_map_get[OF assms])
  have c1: "ordered_map_contains (Some m) (Some k) = Some (lookup cmp k bs \<noteq> None, Some (touched m))"
    by (rule wf_map_contains[OF assms])
  have c2: "ordered_map_contains (Some (touched m)) (Some k) =
      Some (lookup cmp k bs \<noteq> None, Some (touched (touched m)))"
    by (rule wf_map_contains) (simp_all add: assms)
  show ?thesis
    using g c1 c2 assms(4)
    by (auto simp: ordered_map_get_or_default_def ordered_map_size_def split: option.splits)
qed

text \<open>Witness for C8: the example map, an absent key (99) and a present key (1).\<close>

theorem C8_get_or_default_witness:
  "ordered_map_get_or_default (Some example_map) (Some 99) (Some 999) =
     Some (Some 999, Some (touched example_map)) \<and>
   ordered_map_get_or_default (Some example_map) (Some 1) (Some 999) =
     Some (Some 10, Some (touched example_map)) \<and>
   ordered_map_size (Some (touched example_map)) = 3 \<and>
   map_option fst (ordered_map_contains (Some (touched example_map)) (Some 99)) = Some False"
proof -
  note w = C8_get_or_default[OF wf_example_map _ config_example_map(2) bindings_example_map,
      unfolded config_example_map(1), OF policy_ok_int_config]
  have s: "ordered_map_size (Some example_map) = 3"
    by (simp add: ordered_map_size_def example_map_def)
  show ?thesis
    using w[of 99 "Some 999"] w[of 1 "Some 999"] s
    by (simp add: lookup_def int_compare_def)
qed

text \<open>
  C6 (forward/backward traversal duality): on a well-formed map on which the cursor can
  be allocated, a forward cursor advanced until past-end reads the bindings in in-order
  sequence, a backward cursor reads the reverse of that sequence, and the keys of the
  forward sequence are strictly ascending under the comparator.
\<close>

theorem C6_traversal_duality:
  assumes "wf_map m" and "avail m > 0" and "key_compare (config m) = Some cmp"
    and "bindings m = Some bs"
  shows "traverse (Some m) ORDERED_MAP_ITER_FORWARD = Some (map cursor_view bs) \<and>
         traverse (Some m) ORDERED_MAP_ITER_BACKWARD = Some (rev (map cursor_view bs)) \<and>
         sorted_wrt (\<lambda>x y. cmp x y < 0) (map fst bs)"
proof -
  from assms(1) obtain t cmp' where t: "repr_map m t" "key_compare (config m) = Some cmp'"
      "sorted_wrt (\<lambda>x y. cmp' x y < 0) (keys_of t)" "bindings m = Some (bindings_of t)"
    by (rule wf_mapE)
  with assms have [simp]: "cmp' = cmp" "bindings_of t = bs" by auto
  show ?thesis
    using traverse_forward[OF t(1) assms(2)] traverse_backward[OF t(1) assms(2)] t(3)
    by (simp add: keys_of_bindings)
qed

text \<open>Witness for C6: the example map.\<close>

theorem C6_traversal_duality_witness:
  "traverse (Some example_map) ORDERED_MAP_ITER_FORWARD =
     Some [(Some 1, Some 10), (Some 2, Some 20), (Some 3, Some 30)] \<and>
   traverse (Some example_map) ORDERED_MAP_ITER_BACKWARD =
     Some [(Some 3, Some 30), (Some 2, Some 20), (Some 1, Some 10)] \<and>
   sorted_wrt (\<lambda>x y. int_compare x y < 0) [1, 2, 3]"
proof -
  have a: "avail example_map > 0" by (simp add: example_map_def)
  show ?thesis
    using C6_traversal_duality[OF wf_example_map a config_example_map(2) bindings_example_map]
    by (simp add: cursor_view_def)
qed


text \<open>
  C7 (insert/remove inverse): on a well-formed map with an order comparator and a key
  \<open>k\<close> the map does not contain, \<open>insert(k, v)\<close> returns, with success or
  out-of-memory, and when it succeeds \<open>remove(k)\<close> succeeds and leaves a well-formed
  map with the bindings, in sequence, of the map before the insert. So the size is the
  same, \<open>contains(x)\<close> answers the same for every key \<open>x\<close>, and a forward cursor
  traversal reads the same sequence wherever the cursor can be allocated.
\<close>

theorem C7_insert_remove_inverse:
  assumes "wf_map m" and "policy_ok (config m)" and "key_compare (config m) = Some cmp"
    and "bindings m = Some bs" and "lookup cmp k bs = None"
  shows "\<exists>e m1. ordered_map_insert (Some m) (Some k) (Some v) = Some (e, Some m1) \<and>
      (e = ORDERED_MAP_SUCCESS \<or> e = ORDERED_MAP_ERROR_OUT_OF_MEMORY) \<and>
      (e = ORDERED_MAP_SUCCESS \<longrightarrow>
        (\<exists>m2. ordered_map_remove (Some m1) (Some k) = Some (ORDERED_MAP_SUCCESS, Some m2) \<and>
           wf_map m2 \<and> bindings m2 = Some bs \<and>
           ordered_map_size (Some m2) = ordered_map_size (Some m) \<and>
           (\<forall>x. ordered_map_contains (Some m2) (Some x) = Some (lookup cmp x bs \<noteq> None, Some (touched m2)) \<and>
                ordered_map_contains (Some m) (Some x) = Some (lookup cmp x bs \<noteq> None, Some (touched m))) \<and>
           (0 < avail m2 \<longrightarrow> traverse (Some m2) ORDERED_MAP_ITER_FORWARD = Some (map cursor_view bs)) \<and>
           (0 < avail m \<longrightarrow> traverse (Some m) ORDERED_MAP_ITER_FORWARD = Some (map cursor_view bs))))"
proof -
  from wf_insert_remove[OF assms, of v] obtain e m1 where
    i: "ordered_map_insert (Some m) (Some k) (Some v) = Some (e, Some m1)"
    and e: "e = ORDERED_MAP_SUCCESS \<or> e = ORDERED_MAP_ERROR_OUT_OF_MEMORY"
    and post: "e = ORDERED_MAP_SUCCESS \<Longrightarrow>
        (\<exists>m2. ordered_map_remove (Some m1) (Some k) = Some (ORDERED_MAP_SUCCESS, Some m2) \<and>
           wf_map m2 \<and> bindings m2 = Some bs \<and> msize m2 = msize m \<and> config m2 = config m)"
    by blast
  have tr: "traverse (Some n) ORDERED_MAP_ITER_FORWARD = Some (map cursor_view bs)"
    if "wf_map n" "bindings n = Some bs" "0 < avail n" for n :: "('a, 'b) ordered_map_t"
  proof -
    from that(1) obtain t where t: "repr_map n t" "bindings n = Some (bindings_of t)" by (rule wf_mapE)
    with that(2) have "bindings_of t = bs" by simp
    with traverse_forward[OF t(1) that(3)] show ?thesis by simp
  qed
  have "\<exists>m2. ordered_map_remove (Some m1) (Some k) = Some (ORDERED_MAP_SUCCESS, Some m2) \<and>
           wf_map m2 \<and> bindings m2 = Some bs \<and>
           ordered_map_size (Some m2) = ordered_map_size (Some m) \<and>
           (\<forall>x. ordered_map_contains (Some m2) (Some x) = Some (lookup cmp x bs \<noteq> None, Some (touched m2)) \<and>
                ordered_map_contains (Some m) (Some x) = Some (lookup cmp x bs \<noteq> None, Some (touched m))) \<and>
           (0 < avail m2 \<longrightarrow> traverse (Some m2) ORDERED_MAP_ITER_FORWARD = Some (map cursor_view bs)) \<and>
           (0 < avail m \<longrightarrow> traverse (Some m) ORDERED_MAP_ITER_FORWARD = Some (map cursor_view bs))"
    if "e = ORDERED_MAP_SUCCESS"
  proof -
    from post[OF that] obtain m2 where
      m2: "ordered_map_remove (Some m1) (Some k) = Some (ORDERED_MAP_SUCCESS, Some m2)"
        "wf_map m2" "bindings m2 = Some bs" "msize m2 = msize m" "config m2 = config m" by blast
    have pol2: "policy_ok (config m2)" and cmp2: "key_compare (config m2) = Some cmp"
      using assms(2,3) m2(5) by simp_all
    have c2: "ordered_map_contains (Some m2) (Some x) = Some (lookup cmp x bs \<noteq> None, Some (touched m2))" for x
      by (rule wf_map_contains[OF m2(2) pol2 cmp2 m2(3)])
    have c0: "ordered_map_contains (Some m) (Some x) = Some (lookup cmp x bs \<noteq> None, Some (touched m))" for x
      by (rule wf_map_contains[OF assms(1,2,3,4)])
    show ?thesis
      using m2(1,2,3,4) c2 c0 tr[OF m2(2,3)] tr[OF assms(1,4)]
      by (intro exI[of _ m2]) (simp add: ordered_map_size_def)
  qed
  then have post': "e = ORDERED_MAP_SUCCESS \<longrightarrow>
        (\<exists>m2. ordered_map_remove (Some m1) (Some k) = Some (ORDERED_MAP_SUCCESS, Some m2) \<and>
           wf_map m2 \<and> bindings m2 = Some bs \<and>
           ordered_map_size (Some m2) = ordered_map_size (Some m) \<and>
           (\<forall>x. ordered_map_contains (Some m2) (Some x) = Some (lookup cmp x bs \<noteq> None, Some (touched m2)) \<and>
                ordered_map_contains (Some m) (Some x) = Some (lookup cmp x bs \<noteq> None, Some (touched m))) \<and>
           (0 < avail m2 \<longrightarrow> traverse (Some m2) ORDERED_MAP_ITER_FORWARD = Some (map cursor_view bs)) \<and>
           (0 < avail m \<longrightarrow> traverse (Some m) ORDERED_MAP_ITER_FORWARD = Some (map cursor_view bs)))"
    by (rule impI)
  show ?thesis
    by (rule exI[of _ e], rule exI[of _ m1], intro conjI) (rule i, rule e, rule post')
qed

text \<open>
  Witness for C7: inserting (7, 70) into the example map and removing 7 again.
\<close>

theorem C7_insert_remove_inverse_witness:
  "\<exists>m1 m2. ordered_map_insert (Some example_map) (Some 7) (Some 70) = Some (ORDERED_MAP_SUCCESS, Some m1) \<and>
     ordered_map_remove (Some m1) (Some 7) = Some (ORDERED_MAP_SUCCESS, Some m2) \<and>
     bindings m2 = Some [(1, 10), (2, 20), (3, 30)] \<and>
     ordered_map_size (Some m2) = ordered_map_size (Some example_map) \<and>
     map_option fst (ordered_map_contains (Some m2) (Some 7)) = Some False \<and>
     map_option fst (ordered_map_contains (Some m2) (Some 2)) = Some True \<and>
     traverse (Some m2) ORDERED_MAP_ITER_FORWARD = Some [(Some 1, Some 10), (Some 2, Some 20), (Some 3, Some 30)] \<and>
     traverse (Some example_map) ORDERED_MAP_ITER_FORWARD = Some [(Some 1, Some 10), (Some 2, Some 20), (Some 3, Some 30)]"
proof -
  have pol: "policy_ok (config example_map)" by (simp add: config_example_map policy_ok_int_config)
  have ab: "lookup int_compare 7 [(1, 10), (2, 20), (3, 30)] = None"
    by (simp add: lookup_def int_compare_def)
  let ?bs = "[(1, 10), (2, 20), (3, 30)] :: (int \<times> int) list"
  note c7 = C7_insert_remove_inverse[OF wf_example_map pol config_example_map(2) bindings_example_map ab, of 70]
  from c7 obtain e where "\<exists>m1. ordered_map_insert (Some example_map) (Some 7) (Some 70) = Some (e, Some m1) \<and>
      (e = ORDERED_MAP_SUCCESS \<or> e = ORDERED_MAP_ERROR_OUT_OF_MEMORY) \<and>
      (e = ORDERED_MAP_SUCCESS \<longrightarrow>
        (\<exists>m2. ordered_map_remove (Some m1) (Some 7) = Some (ORDERED_MAP_SUCCESS, Some m2) \<and>
           wf_map m2 \<and> bindings m2 = Some ?bs \<and>
           ordered_map_size (Some m2) = ordered_map_size (Some example_map) \<and>
           (\<forall>x. ordered_map_contains (Some m2) (Some x) = Some (lookup int_compare x ?bs \<noteq> None, Some (touched m2)) \<and>
                ordered_map_contains (Some example_map) (Some x) = Some (lookup int_compare x ?bs \<noteq> None, Some (touched example_map))) \<and>
           (0 < avail m2 \<longrightarrow> traverse (Some m2) ORDERED_MAP_ITER_FORWARD = Some (map cursor_view ?bs)) \<and>
           (0 < avail example_map \<longrightarrow> traverse (Some example_map) ORDERED_MAP_ITER_FORWARD = Some (map cursor_view ?bs))))" ..
  then obtain m1 where all: "ordered_map_insert (Some example_map) (Some 7) (Some 70) = Some (e, Some m1) \<and>
      (e = ORDERED_MAP_SUCCESS \<or> e = ORDERED_MAP_ERROR_OUT_OF_MEMORY) \<and>
      (e = ORDERED_MAP_SUCCESS \<longrightarrow>
        (\<exists>m2. ordered_map_remove (Some m1) (Some 7) = Some (ORDERED_MAP_SUCCESS, Some m2) \<and>
           wf_map m2 \<and> bindings m2 = Some ?bs \<and>
           ordered_map_size (Some m2) = ordered_map_size (Some example_map) \<and>
           (\<forall>x. ordered_map_contains (Some m2) (Some x) = Some (lookup int_compare x ?bs \<noteq> None, Some (touched m2)) \<and>
                ordered_map_contains (Some example_map) (Some x) = Some (lookup int_compare x ?bs \<noteq> None, Some (touched example_map))) \<and>
           (0 < avail m2 \<longrightarrow> traverse (Some m2) ORDERED_MAP_ITER_FORWARD = Some (map cursor_view ?bs)) \<and>
           (0 < avail example_map \<longrightarrow> traverse (Some example_map) ORDERED_MAP_ITER_FORWARD = Some (map cursor_view ?bs))))" ..
  note i = all[THEN conjunct1] and post = all[THEN conjunct2, THEN conjunct2, THEN mp]
  have ev: "map_option fst (ordered_map_insert (Some example_map) (Some 7) (Some 70)) = Some ORDERED_MAP_SUCCESS"
    by code_simp
  with i have e: "e = ORDERED_MAP_SUCCESS" by simp
  from post[OF e] obtain m2 where all2: "ordered_map_remove (Some m1) (Some 7) = Some (ORDERED_MAP_SUCCESS, Some m2) \<and>
           wf_map m2 \<and> bindings m2 = Some ?bs \<and>
           ordered_map_size (Some m2) = ordered_map_size (Some example_map) \<and>
           (\<forall>x. ordered_map_contains (Some m2) (Some x) = Some (lookup int_compare x ?bs \<noteq> None, Some (touched m2)) \<and>
                ordered_map_contains (Some example_map) (Some x) = Some (lookup int_compare x ?bs \<noteq> None, Some (touched example_map))) \<and>
           (0 < avail m2 \<longrightarrow> traverse (Some m2) ORDERED_MAP_ITER_FORWARD = Some (map cursor_view ?bs)) \<and>
           (0 < avail example_map \<longrightarrow> traverse (Some example_map) ORDERED_MAP_ITER_FORWARD = Some (map cursor_view ?bs))" ..
  note rm = all2[THEN conjunct1]
    and b2 = all2[THEN conjunct2, THEN conjunct2, THEN conjunct1]
    and sz = all2[THEN conjunct2, THEN conjunct2, THEN conjunct2, THEN conjunct1]
    and ct = all2[THEN conjunct2, THEN conjunct2, THEN conjunct2, THEN conjunct2, THEN conjunct1, THEN spec, THEN conjunct1]
    and t2 = all2[THEN conjunct2, THEN conjunct2, THEN conjunct2, THEN conjunct2, THEN conjunct2, THEN conjunct1, THEN mp]
    and t0 = all2[THEN conjunct2, THEN conjunct2, THEN conjunct2, THEN conjunct2, THEN conjunct2, THEN conjunct2, THEN mp]
  have eva: "ordered_map_insert (Some example_map) (Some 7) (Some 70) \<bind> (\<lambda>(e, mp). ordered_map_remove mp (Some 7)) \<bind>
      (\<lambda>(e, mp). map_option avail mp) = Some 87"
    by code_simp
  with i rm have a2: "0 < avail m2" by simp
  have a0: "0 < avail example_map" by (simp add: example_map_def)
  show ?thesis
    using i e rm b2 sz ct[of 7] ct[of 2] t2[OF a2] t0[OF a0]
    by (intro exI[of _ m1] exI[of _ m2]) (simp add: lookup_def int_compare_def cursor_view_def)
qed

end
